theory Spec2Isabelle
  imports Complex_Main
begin

section \<open>Python values and failures\<close>

text \<open>
  The exceptions the modelled code can raise.  A computation that may raise returns
  \<open>error + 'a\<close>, with \<open>Inl\<close> for the exception.
\<close>

datatype error = IndexError | ValueError | ZeroDivisionError | AttributeError

definition err_bind :: "error + 'a \<Rightarrow> ('a \<Rightarrow> error + 'b) \<Rightarrow> error + 'b" where
  "err_bind m f = (case m of Inl e \<Rightarrow> Inl e | Inr v \<Rightarrow> f v)"

text \<open>Python list indexing \<open>xs[i]\<close>: a negative index counts from the end.\<close>

definition py_get :: "'a list \<Rightarrow> int \<Rightarrow> error + 'a" where
  "py_get xs i =
     (if 0 \<le> i \<and> i < int (length xs) then Inr (xs ! nat i)
      else if i < 0 \<and> - int (length xs) \<le> i then Inr (xs ! nat (int (length xs) + i))
      else Inl IndexError)"

text \<open>\<open>grid[x][y]\<close> on a list of columns.\<close>

definition py_get2 :: "'a list list \<Rightarrow> int \<Rightarrow> int \<Rightarrow> error + 'a" where
  "py_get2 g x y = err_bind (py_get g x) (\<lambda>col. py_get col y)"

text \<open>Evaluating a list of computations from left to right, stopping at the first exception.\<close>

fun collect :: "(error + 'a) list \<Rightarrow> error + 'a list" where
  "collect [] = Inr []"
| "collect (r # rs) =
     (case r of Inl e \<Rightarrow> Inl e
      | Inr v \<Rightarrow> (case collect rs of Inl e \<Rightarrow> Inl e | Inr vs \<Rightarrow> Inr (v # vs)))"

text \<open>\<open>range(n)\<close> as a list of Python integers.\<close>

definition py_range :: "nat \<Rightarrow> int list" where
  "py_range n = map int [0..<n]"

section \<open>tetromino.py\<close>

text \<open>
  \<open>rotate(block_data)\<close>: row \<open>x\<close> of the result is
  \<open>[block_data[y][len(block_data) - x - 1] for y in range(len(block_data))]\<close>.
\<close>

definition rotate :: "bool list list \<Rightarrow> error + bool list list" where
  "rotate block_data =
     (let n = length block_data in
      collect (map (\<lambda>x. collect (map (\<lambda>y. py_get2 block_data y (int n - x - 1)) (py_range n)))
                   (py_range n)))"

text \<open>A square mask: as many columns as each column has cells.\<close>

definition square :: "'a list list \<Rightarrow> bool" where
  "square block_data = (\<forall>col \<in> set block_data. length col = length block_data)"

text \<open>The value of \<open>rotate\<close> on a square mask, where no index is out of range.\<close>

definition rot :: "bool list list \<Rightarrow> bool list list" where
  "rot bd = map (\<lambda>x. map (\<lambda>y. bd ! y ! (length bd - x - 1)) [0..<length bd]) [0..<length bd]"

text \<open>Four successive calls, each on the result of the one before.\<close>

definition rotate4 :: "bool list list \<Rightarrow> error + bool list list" where
  "rotate4 bd = err_bind (err_bind (err_bind (rotate bd) rotate) rotate) rotate"

text \<open>
  \<open>TetrominoType\<close>: the precomputed data of one shape in one rotation.  \<open>block_data\<close>
  is indexed \<open>block_data[x][y]\<close>.  A \<open>Tetromino\<close> copies these fields from the type
  (\<open>set_type\<close>) and adds its own position.  The fields \<open>id\<close> and \<open>size\<close> are
  written \<open>tmino_id\<close> and \<open>tmino_size\<close>.
\<close>

record TetrominoType =
  tmino_id :: int
  block_data :: "bool list list"
  tmino_size :: nat
  min_x :: int
  min_y :: int
  max_x :: int
  max_y :: int
  rotation :: int
  color :: "int list"

record Tetromino = TetrominoType +
  unique_rotations_list :: "int list"
  x_pos :: int
  y_pos :: int

text \<open>The module globals \<open>tmino_list\<close>, \<open>unique_tmino_list\<close> and \<open>unique_types\<close>.\<close>

record geometry =
  tmino_list :: "TetrominoType list"
  unique_tmino_list :: "int list list"
  unique_types :: int

text \<open>\<open>get_tetromino_type(id, rotation)\<close> is \<open>tmino_list[((id - 1) * 4) + (rotation % 4)]\<close>.\<close>

definition get_tetromino_type :: "geometry \<Rightarrow> int \<Rightarrow> int \<Rightarrow> error + TetrominoType" where
  "get_tetromino_type geo i r = py_get (tmino_list geo) (((i - 1) * 4) + (r mod 4))"

text \<open>
  \<open>Tetromino(id, rotation, x_pos, y_pos)\<close>: \<open>set_type\<close> looks the type up, then
  \<open>unique_tmino_list[id - 1]\<close>, and copies the fields; \<open>rotation\<close> is the argument as given.
\<close>

definition new_Tetromino :: "geometry \<Rightarrow> int \<Rightarrow> int \<Rightarrow> int \<Rightarrow> int \<Rightarrow> error + Tetromino" where
  "new_Tetromino geo i r x y =
     err_bind (get_tetromino_type geo i r) (\<lambda>ty.
     err_bind (py_get (unique_tmino_list geo) (i - 1)) (\<lambda>uniq.
       Inr \<lparr> tmino_id = i, block_data = block_data ty, tmino_size = tmino_size ty,
             min_x = min_x ty, min_y = min_y ty, max_x = max_x ty, max_y = max_y ty,
             rotation = r, color = color ty,
             unique_rotations_list = uniq, x_pos = x, y_pos = y \<rparr>))"

section \<open>tetris.py: collision\<close>

text \<open>
  A grid is a list of columns, indexed \<open>grid[x][y]\<close>, with \<open>y = 0\<close> the top row.  The game
  grid holds \<open>0\<close> or a shape id; the boolean grid of the AI holds Python's \<open>False\<close> and
  \<open>True\<close>, which are the integers \<open>0\<close> and \<open>1\<close>.  A cell is occupied when it is not \<open>0\<close>.
\<close>

type_synonym grid = "int list list"

text \<open>\<open>range(a, b)\<close> and the pairs \<open>(x, y)\<close> of two nested loops over \<open>range(n)\<close>.\<close>

definition py_range2 :: "int \<Rightarrow> int \<Rightarrow> int list" where
  "py_range2 a b = map (\<lambda>k. a + int k) [0..<nat (b - a)]"

definition cells :: "nat \<Rightarrow> (int \<times> int) list" where
  "cells n = List.product (py_range n) (py_range n)"

text \<open>
  \<open>is_colliding(grid, tetromino)\<close>: the cells of the mask in loop order; the first occupied
  mask cell that is out of bounds or on an occupied grid cell returns \<open>True\<close>.  The
  disjunction is evaluated left to right, so \<open>grid[0]\<close> and \<open>grid[grid_x][grid_y]\<close> are
  only read when the tests before them are false.
\<close>

fun is_colliding_loop :: "grid \<Rightarrow> Tetromino \<Rightarrow> (int \<times> int) list \<Rightarrow> error + bool" where
  "is_colliding_loop grid t [] = Inr False"
| "is_colliding_loop grid t ((x, y) # cs) =
     err_bind (py_get2 (block_data t) x y) (\<lambda>b.
       if b then
         (let grid_x = x + x_pos t; grid_y = y + y_pos t in
          if grid_x < 0 \<or> grid_y < 0 \<or> grid_x \<ge> int (length grid) then Inr True
          else err_bind (py_get grid 0) (\<lambda>col0.
            if grid_y \<ge> int (length col0) then Inr True
            else err_bind (py_get2 grid grid_x grid_y) (\<lambda>v.
              if v \<noteq> 0 then Inr True else is_colliding_loop grid t cs)))
       else is_colliding_loop grid t cs)"

definition is_colliding :: "grid \<Rightarrow> Tetromino \<Rightarrow> error + bool" where
  "is_colliding grid t = is_colliding_loop grid t (cells (tmino_size t))"

section \<open>ai.py\<close>

text \<open>
  The dimensions shared by the classes; \<open>TetrisAI\<close> adds its three weight lists.  The
  weights are Python floats.  \<open>compute_score\<close> only adds and subtracts them, starting
  from \<open>0\<close>, so the scoring is written for weights of any type \<open>'w\<close> that has \<open>0\<close>, \<open>+\<close>
  and \<open>-\<close>, with no law assumed of these operations: what is proved of it holds for
  floating-point numbers, whose sums are rounded, as for exact numbers.  The genetic
  operators, further down, only copy weights and draw new ones; there the weights are real
  numbers.  The two caps are set to \<open>5\<close> by \<open>__init__\<close> and never changed.
\<close>

record dims =
  grid_width :: nat
  grid_height :: nat

record 'w TetrisAI = dims +
  row_filled_weights :: "'w list"
  hole_height_weights :: "'w list"
  column_diff_weights :: "'w list"

definition hole_height_cap :: int where
  "hole_height_cap = 5"

definition column_diff_cap :: int where
  "column_diff_cap = 5"

text \<open>
  \<open>compute_heightmap(grid)\<close>: for each column the first occupied cell from the top gives
  \<open>grid_height - y\<close>; a column without one gives \<open>0\<close>.
\<close>

fun first_filled :: "grid \<Rightarrow> int \<Rightarrow> int list \<Rightarrow> error + int option" where
  "first_filled grid x [] = Inr None"
| "first_filled grid x (y # ys) =
     err_bind (py_get2 grid x y) (\<lambda>v. if v \<noteq> 0 then Inr (Some y) else first_filled grid x ys)"

definition compute_heightmap :: "('a dims_scheme) \<Rightarrow> grid \<Rightarrow> error + int list" where
  "compute_heightmap ai grid =
     collect (map (\<lambda>x. err_bind (first_filled grid x (py_range (grid_height ai)))
                          (\<lambda>r. Inr (case r of Some y \<Rightarrow> int (grid_height ai) - y | None \<Rightarrow> 0)))
                  (py_range (grid_width ai)))"

text \<open>
  \<open>compute_score(grid)\<close>.  The loops thread the score; beside it they thread a log of
  every read of a weight list (which list, which index), in the order of the reads.
\<close>

datatype weight_list = RowFilled | HoleHeight | ColumnDiff

type_synonym 'w scoring = "'w \<times> (weight_list \<times> int) list"

definition read_weight ::
  "'w TetrisAI \<Rightarrow> weight_list \<Rightarrow> int \<Rightarrow> (weight_list \<times> int) list \<Rightarrow> error + 'w scoring" where
  "read_weight ai l i rds =
     err_bind (py_get (case l of RowFilled \<Rightarrow> row_filled_weights ai
                               | HoleHeight \<Rightarrow> hole_height_weights ai
                               | ColumnDiff \<Rightarrow> column_diff_weights ai) i)
       (\<lambda>w. Inr (w, rds @ [(l, i)]))"

fun cells_filled_loop :: "grid \<Rightarrow> int \<Rightarrow> int list \<Rightarrow> int \<Rightarrow> error + int" where
  "cells_filled_loop grid y [] cells_filled = Inr cells_filled"
| "cells_filled_loop grid y (x # xs) cells_filled =
     err_bind (py_get2 grid x y) (\<lambda>v.
       cells_filled_loop grid y xs (if v \<noteq> 0 then cells_filled + 1 else cells_filled))"

fun row_loop :: "('w::plus) TetrisAI \<Rightarrow> grid \<Rightarrow> int list \<Rightarrow> 'w scoring \<Rightarrow> error + 'w scoring" where
  "row_loop ai grid [] s = Inr s"
| "row_loop ai grid (y # ys) (score, rds) =
     err_bind (cells_filled_loop grid y (py_range (grid_width ai)) 0) (\<lambda>cells_filled.
     err_bind (read_weight ai RowFilled cells_filled rds) (\<lambda>(w, rds').
       row_loop ai grid ys (score + w, rds')))"

fun hole_loop ::
  "('w::minus) TetrisAI \<Rightarrow> grid \<Rightarrow> int \<Rightarrow> int list \<Rightarrow> 'w scoring \<times> int \<Rightarrow> error + 'w scoring \<times> int" where
  "hole_loop ai grid x [] s = Inr s"
| "hole_loop ai grid x (y # ys) ((score, rds), hole_height) =
     err_bind (py_get2 grid x y) (\<lambda>v.
       if v \<noteq> 0 then
         (if hole_height > 0 then
            err_bind (read_weight ai HoleHeight (min hole_height hole_height_cap - 1) rds) (\<lambda>(w, rds').
              hole_loop ai grid x ys ((score - w, rds'), 0))
          else hole_loop ai grid x ys ((score, rds), hole_height))
       else hole_loop ai grid x ys ((score, rds), hole_height + 1))"

fun column_loop ::
  "('w::minus) TetrisAI \<Rightarrow> grid \<Rightarrow> int list \<Rightarrow> int list \<Rightarrow> 'w scoring \<Rightarrow> error + 'w scoring" where
  "column_loop ai grid heights [] s = Inr s"
| "column_loop ai grid heights (x # xs) s =
     err_bind (py_get heights x) (\<lambda>h.
     err_bind (hole_loop ai grid x (py_range2 (int (grid_height ai) - h) (int (grid_height ai))) (s, 0))
       (\<lambda>((score, rds), hole_height).
          if hole_height > 0 then
            err_bind (read_weight ai HoleHeight (min hole_height (hole_height_cap - 1)) rds) (\<lambda>(w, rds').
              column_loop ai grid heights xs (score - w, rds'))
          else column_loop ai grid heights xs (score, rds)))"

fun diff_loop :: "('w::minus) TetrisAI \<Rightarrow> int list \<Rightarrow> int list \<Rightarrow> 'w scoring \<Rightarrow> error + 'w scoring" where
  "diff_loop ai heights [] s = Inr s"
| "diff_loop ai heights (i # is) (score, rds) =
     err_bind (py_get heights i) (\<lambda>h.
     err_bind (py_get heights (i - 1)) (\<lambda>h'.
     err_bind (read_weight ai ColumnDiff (min (abs (h - h')) (column_diff_cap - 1)) rds) (\<lambda>(w, rds').
       diff_loop ai heights is (score - w, rds'))))"

definition compute_score_log :: "('w::{zero,plus,minus}) TetrisAI \<Rightarrow> grid \<Rightarrow> error + 'w scoring" where
  "compute_score_log ai grid =
     err_bind (row_loop ai grid (py_range (grid_height ai)) (0, [])) (\<lambda>s1.
     err_bind (compute_heightmap ai grid) (\<lambda>heights.
     err_bind (column_loop ai grid heights (py_range (grid_width ai)) s1) (\<lambda>s2.
       diff_loop ai heights (py_range2 1 (int (length heights))) s2)))"

definition compute_score :: "('w::{zero,plus,minus}) TetrisAI \<Rightarrow> grid \<Rightarrow> error + 'w" where
  "compute_score ai grid = err_bind (compute_score_log ai grid) (\<lambda>(score, rds). Inr score)"

text \<open>The reads of the weight lists that \<open>compute_score\<close> makes (empty when it raises).\<close>

definition weight_reads :: "('w::{zero,plus,minus}) TetrisAI \<Rightarrow> grid \<Rightarrow> (weight_list \<times> int) list" where
  "weight_reads ai grid = (case compute_score_log ai grid of Inl e \<Rightarrow> [] | Inr (score, rds) \<Rightarrow> rds)"

text \<open>A grid of the dimensions of the AI (or game): \<open>grid_width\<close> columns of \<open>grid_height\<close> cells.\<close>

definition wf_grid :: "('a dims_scheme) \<Rightarrow> grid \<Rightarrow> bool" where
  "wf_grid ai grid =
     (length grid = grid_width ai \<and> (\<forall>col \<in> set grid. length col = grid_height ai))"

text \<open>The index ranges of the three weight lists, for a board of width \<open>W\<close>.\<close>

definition read_in_range :: "nat \<Rightarrow> weight_list \<times> int \<Rightarrow> bool" where
  "read_in_range W r =
     (case r of (RowFilled, i) \<Rightarrow> 0 \<le> i \<and> i \<le> int W
              | (HoleHeight, i) \<Rightarrow> 0 \<le> i \<and> i \<le> 4
              | (ColumnDiff, i) \<Rightarrow> 0 \<le> i \<and> i \<le> 4)"

text \<open>Every read of a log is in range; the lengths that \<open>__init__\<close> gives the weight lists.\<close>

definition reads_ok :: "nat \<Rightarrow> (weight_list \<times> int) list \<Rightarrow> bool" where
  "reads_ok W rds = (\<forall>r \<in> set rds. read_in_range W r)"

definition wf_weights :: "'w TetrisAI \<Rightarrow> bool" where
  "wf_weights ai = (length (row_filled_weights ai) = grid_width ai + 1
     \<and> length (hole_height_weights ai) = 5 \<and> length (column_diff_weights ai) = 5)"

text \<open>The board without any occupied cell.\<close>

definition empty_grid :: "nat \<Rightarrow> nat \<Rightarrow> grid" where
  "empty_grid W H = replicate W (replicate H 0)"

text \<open>Two concrete AIs used to run the scoring: a 2 by 1 board and a one-column board.\<close>

definition ai_2x1 :: "real TetrisAI" where
  "ai_2x1 = \<lparr>grid_width = 2, grid_height = 1, row_filled_weights = [1, 2, 3],
              hole_height_weights = [1, 2, 3, 4, 5], column_diff_weights = [1, 2, 3, 4, 5]\<rparr>"

definition ai_column :: "nat \<Rightarrow> real TetrisAI" where
  "ai_column H = \<lparr>grid_width = 1, grid_height = H, row_filled_weights = [0, 0],
              hole_height_weights = [1, 2, 3, 4, 5], column_diff_weights = [0, 0, 0, 0, 0]\<rparr>"

text \<open>
  \<open>compute_moves_available(grid, tetromino)\<close>.  The inner loop over \<open>range(i, i + size)\<close>
  finds the greatest height under the piece.
\<close>

fun greatest_height_loop :: "grid \<Rightarrow> int list \<Rightarrow> int list \<Rightarrow> int \<Rightarrow> error + int" where
  "greatest_height_loop grid heights [] greatest_height = Inr greatest_height"
| "greatest_height_loop grid heights (j # js) greatest_height =
     (if j \<ge> 0 \<and> j < int (length grid) then
        err_bind (py_get heights j) (\<lambda>h.
          greatest_height_loop grid heights js (if h > greatest_height then h else greatest_height))
      else greatest_height_loop grid heights js greatest_height)"

text \<open>
  The descent: \<open>y_pos = j\<close>; on a collision \<open>y_pos = j - 1\<close> and \<open>break\<close>.  When the range is
  empty the piece keeps the \<open>y_pos\<close> it had.
\<close>

fun drop_loop :: "grid \<Rightarrow> Tetromino \<Rightarrow> int list \<Rightarrow> error + Tetromino" where
  "drop_loop grid t [] = Inr t"
| "drop_loop grid t (j # js) =
     err_bind (is_colliding grid (t\<lparr>y_pos := j\<rparr>)) (\<lambda>c.
       if c then Inr (t\<lparr>y_pos := j - 1\<rparr>) else drop_loop grid (t\<lparr>y_pos := j\<rparr>) js)"

type_synonym move = "int \<times> int \<times> int"

text \<open>
  The loop over the horizontal positions of one rotation.  \<open>current_tmino\<close> is one object
  for the whole loop, so its \<open>y_pos\<close> is carried from one position to the next.
\<close>

fun position_loop ::
  "grid \<Rightarrow> int list \<Rightarrow> int \<Rightarrow> int list \<Rightarrow> Tetromino \<times> move list \<Rightarrow> error + Tetromino \<times> move list" where
  "position_loop grid heights r [] s = Inr s"
| "position_loop grid heights r (i # is) (current_tmino, possible_moves) =
     (let t1 = current_tmino\<lparr>x_pos := i\<rparr> in
      err_bind (greatest_height_loop grid heights (py_range2 i (i + int (tmino_size t1))) 0)
        (\<lambda>greatest_height.
      err_bind (py_get grid 0) (\<lambda>col0.
      err_bind (drop_loop grid t1
                  (py_range2 (max (int (length col0) - greatest_height - int (tmino_size t1)) (min_y t1))
                             (max_y t1 + 1))) (\<lambda>t2.
      err_bind (is_colliding grid t2) (\<lambda>c.
        position_loop grid heights r is
          (t2, if \<not> c then possible_moves @ [(r, x_pos t2, y_pos t2)] else possible_moves))))))"

fun rotation_loop ::
  "geometry \<Rightarrow> grid \<Rightarrow> int list \<Rightarrow> int \<Rightarrow> int list \<Rightarrow> move list \<Rightarrow> error + move list" where
  "rotation_loop geo grid heights i [] possible_moves = Inr possible_moves"
| "rotation_loop geo grid heights i (r # rs) possible_moves =
     err_bind (new_Tetromino geo i r 0 0) (\<lambda>current_tmino.
     err_bind (position_loop grid heights r
                 (py_range2 (min_x current_tmino) (max_x current_tmino + 1))
                 (current_tmino, possible_moves)) (\<lambda>(t, possible_moves').
       rotation_loop geo grid heights i rs possible_moves'))"

definition compute_moves_available ::
  "geometry \<Rightarrow> ('a dims_scheme) \<Rightarrow> grid \<Rightarrow> Tetromino \<Rightarrow> error + move list" where
  "compute_moves_available geo ai grid tetromino =
     err_bind (compute_heightmap ai grid) (\<lambda>heights.
       rotation_loop geo grid heights (tmino_id tetromino) (unique_rotations_list tetromino) [])"

text \<open>
  What a move \<open>(rotation, x, y)\<close> of the piece \<open>i\<close> denotes: the piece in that rotation at that
  position.  The placement is free when every cell of its mask can be read and every
  occupied one lies inside the board of width \<open>W\<close> and height \<open>H\<close>, on an empty grid cell.
\<close>

definition free_cell :: "nat \<Rightarrow> nat \<Rightarrow> grid \<Rightarrow> Tetromino \<Rightarrow> int \<times> int \<Rightarrow> bool" where
  "free_cell W H grid t c =
     (case c of (cx, cy) \<Rightarrow>
        (case py_get2 (block_data t) cx cy of
           Inl e \<Rightarrow> False
         | Inr b \<Rightarrow> \<not> b \<or>
             (0 \<le> cx + x_pos t \<and> cx + x_pos t < int W \<and> 0 \<le> cy + y_pos t \<and> cy + y_pos t < int H
              \<and> grid ! nat (cx + x_pos t) ! nat (cy + y_pos t) = 0)))"

definition free_placement :: "geometry \<Rightarrow> nat \<Rightarrow> nat \<Rightarrow> grid \<Rightarrow> int \<Rightarrow> move \<Rightarrow> bool" where
  "free_placement geo W H grid i m =
     (case m of (r, x, y) \<Rightarrow>
        (case new_Tetromino geo i r x y of
           Inl e \<Rightarrow> False
         | Inr t \<Rightarrow> list_all (free_cell W H grid t) (cells (tmino_size t))))"

text \<open>A piece \<open>t\<close> that is the piece \<open>i\<close> in rotation \<open>r\<close>, at its own position.\<close>

definition same_piece :: "geometry \<Rightarrow> int \<Rightarrow> int \<Rightarrow> Tetromino \<Rightarrow> bool" where
  "same_piece geo i r t = (new_Tetromino geo i r (x_pos t) (y_pos t) = Inr t)"

text \<open>
  A geometry table to run the enumeration on: the single 2 by 2 solid shape on a board of
  width 4 and height 4, with the offsets \<open>process_tetromino\<close> computes for it.
\<close>

definition type_O :: "int \<Rightarrow> TetrominoType" where
  "type_O r = \<lparr> tmino_id = 1, block_data = [[True, True], [True, True]], tmino_size = 2,
               min_x = 0, min_y = 0, max_x = 2, max_y = 2, rotation = r, color = [255, 255, 0] \<rparr>"

definition geo_O :: geometry where
  "geo_O = \<lparr> tmino_list = [type_O 0, type_O 1, type_O 2, type_O 3],
             unique_tmino_list = [[0]], unique_types = 1 \<rparr>"

definition piece_O :: Tetromino where
  "piece_O = \<lparr> tmino_id = 1, block_data = [[True, True], [True, True]], tmino_size = 2,
               min_x = 0, min_y = 0, max_x = 2, max_y = 2, rotation = 0, color = [255, 255, 0],
               unique_rotations_list = [0], x_pos = 0, y_pos = 0 \<rparr>"

definition dims_4x4 :: dims where "dims_4x4 = \<lparr> grid_width = 4, grid_height = 4 \<rparr>"

definition grid_4x4 :: grid where
  "grid_4x4 = [[0, 0, 0, 1], [0, 0, 1, 1], [0, 0, 0, 0], [0, 1, 0, 0]]"

section \<open>The module \<open>random\<close>\<close>

text \<open>
  The generator is modelled by the results it is going to give: \<open>floats\<close> are the coming
  results of \<open>random()\<close> (a real generator gives values in \<open>[0, 1)\<close>), and \<open>ints\<close> are the
  natural numbers from which the coming calls of \<open>randint\<close> take their result.
  \<open>randint(a, b)\<close> raises \<open>ValueError\<close> on an empty range; otherwise its result is
  \<open>a + k mod (b - a + 1)\<close>, so that it always lies in \<open>[a, b]\<close> and every value of the range
  can come out.
\<close>

record rng =
  floats :: "nat \<Rightarrow> real"
  ints :: "nat \<Rightarrow> nat"

definition random :: "rng \<Rightarrow> real \<times> rng" where
  "random g = (floats g 0, g\<lparr>floats := \<lambda>k. floats g (Suc k)\<rparr>)"

definition randint :: "int \<Rightarrow> int \<Rightarrow> rng \<Rightarrow> error + int \<times> rng" where
  "randint a b g =
     (if b < a then Inl ValueError
      else Inr (a + int (ints g 0) mod (b - a + 1), g\<lparr>ints := \<lambda>k. ints g (Suc k)\<rparr>))"

text \<open>Sequencing of computations that use the generator and may raise.\<close>

definition rbind ::
  "(rng \<Rightarrow> error + 'a \<times> rng) \<Rightarrow> ('a \<Rightarrow> rng \<Rightarrow> error + 'b \<times> rng) \<Rightarrow> rng \<Rightarrow> error + 'b \<times> rng" where
  "rbind m f g = (case m g of Inl e \<Rightarrow> Inl e | Inr (v, g') \<Rightarrow> f v g')"

definition rreturn :: "'a \<Rightarrow> rng \<Rightarrow> error + 'a \<times> rng" where
  "rreturn v g = Inr (v, g)"

section \<open>ai.py: the weights\<close>

text \<open>
  \<open>random_weight()\<close> is
  \<open>abs(math.sqrt(-2 * math.log(random())) * math.cos(2 * math.pi * random()))\<close>.
  \<open>math.log\<close> raises \<open>ValueError\<close> on an argument that is not positive, \<open>math.sqrt\<close> on a
  negative one; the second \<open>random()\<close> is only called after the square root is taken.
\<close>

definition random_weight :: "rng \<Rightarrow> error + real \<times> rng" where
  "random_weight g =
     (case random g of (u1, g1) \<Rightarrow>
        if u1 \<le> 0 then Inl ValueError
        else if - 2 * ln u1 < 0 then Inl ValueError
        else (case random g1 of (u2, g2) \<Rightarrow>
                Inr (abs (sqrt (- 2 * ln u1) * cos (2 * pi * u2)), g2)))"

text \<open>\<open>for i in range(n): weights.append(self.random_weight())\<close>\<close>

fun append_random_weights :: "nat \<Rightarrow> real list \<Rightarrow> rng \<Rightarrow> error + real list \<times> rng" where
  "append_random_weights 0 ws g = Inr (ws, g)"
| "append_random_weights (Suc n) ws g =
     rbind random_weight (\<lambda>w. append_random_weights n (ws @ [w])) g"

text \<open>
  \<open>TetrisAI(grid_width, grid_height, row_filled_weights, hole_height_weights,
  column_diff_weights)\<close>: a list given empty is filled with random weights.
\<close>

definition new_TetrisAI ::
  "nat \<Rightarrow> nat \<Rightarrow> real list \<Rightarrow> real list \<Rightarrow> real list \<Rightarrow> rng \<Rightarrow> error + real TetrisAI \<times> rng" where
  "new_TetrisAI W H rfw hhw cdw =
     rbind (if length rfw = 0 then append_random_weights (W + 1) rfw else rreturn rfw) (\<lambda>rfw'.
     rbind (if length hhw = 0 then append_random_weights (nat hole_height_cap) hhw else rreturn hhw) (\<lambda>hhw'.
     rbind (if length cdw = 0 then append_random_weights (nat column_diff_cap) cdw else rreturn cdw) (\<lambda>cdw'.
       rreturn \<lparr> grid_width = W, grid_height = H, row_filled_weights = rfw',
                 hole_height_weights = hhw', column_diff_weights = cdw' \<rparr>)))"

text \<open>
  \<open>crossover(self, ai)\<close>: for each of the three lists a fresh \<open>randint(0, len(ai.list))\<close>
  and \<open>self.list[:idx] + ai.list[idx:]\<close>; the new AI is built by the constructor.
\<close>

definition crossover :: "real TetrisAI \<Rightarrow> real TetrisAI \<Rightarrow> rng \<Rightarrow> error + real TetrisAI \<times> rng" where
  "crossover self ai =
     rbind (randint 0 (int (length (row_filled_weights ai)))) (\<lambda>idx1.
     rbind (randint 0 (int (length (hole_height_weights ai)))) (\<lambda>idx2.
     rbind (randint 0 (int (length (column_diff_weights ai)))) (\<lambda>idx3.
       new_TetrisAI (grid_width ai) (grid_height ai)
         (take (nat idx1) (row_filled_weights self) @ drop (nat idx1) (row_filled_weights ai))
         (take (nat idx2) (hole_height_weights self) @ drop (nat idx2) (hole_height_weights ai))
         (take (nat idx3) (column_diff_weights self) @ drop (nat idx3) (column_diff_weights ai)))))"

text \<open>
  \<open>mutate(mutate_rate)\<close>: one loop per list, over \<open>range(grid_width)\<close>,
  \<open>range(hole_height_cap)\<close> and \<open>range(column_diff_cap)\<close>.  Each index draws
  \<open>random() <= mutate_rate\<close>; when true the entry is assigned a new random weight
  (\<open>IndexError\<close> when the list has no such index).
\<close>

fun mutate_loop :: "real \<Rightarrow> nat list \<Rightarrow> real list \<Rightarrow> rng \<Rightarrow> error + real list \<times> rng" where
  "mutate_loop mutate_rate [] ws g = Inr (ws, g)"
| "mutate_loop mutate_rate (i # is) ws g =
     (case random g of (u, g1) \<Rightarrow>
        if u \<le> mutate_rate then
          rbind random_weight (\<lambda>w g2.
            if i < length ws then mutate_loop mutate_rate is (ws[i := w]) g2
            else Inl IndexError) g1
        else mutate_loop mutate_rate is ws g1)"

definition mutate :: "real TetrisAI \<Rightarrow> real \<Rightarrow> rng \<Rightarrow> error + real TetrisAI \<times> rng" where
  "mutate self mutate_rate =
     rbind (mutate_loop mutate_rate [0..<grid_width self] (row_filled_weights self)) (\<lambda>rfw.
     rbind (mutate_loop mutate_rate [0..<nat hole_height_cap] (hole_height_weights self)) (\<lambda>hhw.
     rbind (mutate_loop mutate_rate [0..<nat column_diff_cap] (column_diff_weights self)) (\<lambda>cdw.
       rreturn (self\<lparr> row_filled_weights := rfw, hole_height_weights := hhw,
                       column_diff_weights := cdw \<rparr>))))"


text \<open>
  One list of a crossover child against the lists of its parents: the same length, and a
  split index before which every entry is the parent \<open>a\<close>'s and from which on every entry is
  the parent \<open>b\<close>'s, each at the same index.
\<close>

definition spliced :: "real list \<Rightarrow> real list \<Rightarrow> real list \<Rightarrow> bool" where
  "spliced a b c =
     (\<exists>k \<le> length b. length c = length b
        \<and> (\<forall>i < length c. c ! i = (if i < k then a ! i else b ! i)))"

text \<open>The state of the lists of a constructed AI: none is empty.\<close>

definition nonempty_weights :: "real TetrisAI \<Rightarrow> bool" where
  "nonempty_weights ai =
     (row_filled_weights ai \<noteq> [] \<and> hole_height_weights ai \<noteq> [] \<and> column_diff_weights ai \<noteq> [])"

text \<open>
  Concrete inputs for the weight operations: a generator whose every \<open>random()\<close> is
  \<open>1/2\<close>, one whose first \<open>random()\<close> is \<open>0\<close>, and two AIs for a board of width 1.
\<close>

definition rng_half :: rng where
  "rng_half = \<lparr> floats = (\<lambda>k. 1 / 2), ints = (\<lambda>k. k + 1) \<rparr>"

definition rng_zero_first :: rng where
  "rng_zero_first = \<lparr> floats = (\<lambda>k. if k = 0 then 0 else 1 / 2), ints = (\<lambda>k. k + 1) \<rparr>"

definition ai_p :: "real TetrisAI" where
  "ai_p = \<lparr>grid_width = 1, grid_height = 1, row_filled_weights = [3, 7],
           hole_height_weights = [1, 2, 3, 4, 5], column_diff_weights = [1, 2, 3, 4, 5]\<rparr>"

definition ai_q :: "real TetrisAI" where
  "ai_q = \<lparr>grid_width = 1, grid_height = 1, row_filled_weights = [30, 70],
           hole_height_weights = [10, 20, 30, 40, 50], column_diff_weights = [10, 20, 30, 40, 50]\<rparr>"

section \<open>tetris.py: the game\<close>

text \<open>Python item assignment \<open>xs[i] = v\<close> and \<open>grid[x][y] = v\<close>.\<close>

definition py_set :: "'a list \<Rightarrow> int \<Rightarrow> 'a \<Rightarrow> error + 'a list" where
  "py_set xs i v =
     (if 0 \<le> i \<and> i < int (length xs) then Inr (xs[nat i := v])
      else if i < 0 \<and> - int (length xs) \<le> i then Inr (xs[nat (int (length xs) + i) := v])
      else Inl IndexError)"

definition py_set2 :: "'a list list \<Rightarrow> int \<Rightarrow> int \<Rightarrow> 'a \<Rightarrow> error + 'a list list" where
  "py_set2 g x y v =
     err_bind (py_get g x) (\<lambda>col. err_bind (py_set col y v) (\<lambda>col'. py_set g x col'))"

text \<open>
  The state of a \<open>Tetris\<close> object; \<open>Tetris\<close> and \<open>Tetro\<close> share the fields of \<open>board\<close>.
  The field \<open>grid\<close> is written \<open>game_grid\<close>; \<open>current_tmino\<close> is \<open>None\<close> once the game is
  lost.
\<close>

record board = dims +
  cell_width :: nat

record Tetris = board +
  lost :: bool
  lines_cleared :: int
  game_grid :: grid
  tmino_seq :: "Tetromino list"
  current_tmino :: "Tetromino option"
  next_tmino :: Tetromino
  next_move :: "Tetromino option"

text \<open>
  \<open>generate_tetromino_seq()\<close>: ids are pulled at random positions out of
  \<open>[1, ..., unique_types]\<close> until none is left.
\<close>

definition pop_at :: "'a list \<Rightarrow> nat \<Rightarrow> 'a list" where
  "pop_at xs i = take i xs @ drop (Suc i) xs"

function generate_loop ::
  "geometry \<Rightarrow> int list \<Rightarrow> Tetromino list \<Rightarrow> rng \<Rightarrow> error + Tetromino list \<times> rng" where
  "generate_loop geo id_list seq g =
     (if length id_list \<noteq> 0 then
        (case randint 0 (int (length id_list) - 1) g of
           Inl e \<Rightarrow> Inl e
         | Inr (rand_idx, g') \<Rightarrow>
             (case py_get id_list rand_idx of
                Inl e \<Rightarrow> Inl e
              | Inr i \<Rightarrow>
                  (case new_Tetromino geo i 0 0 0 of
                     Inl e \<Rightarrow> Inl e
                   | Inr tmino \<Rightarrow>
                       generate_loop geo (pop_at id_list (nat rand_idx))
                         (seq @ [tmino\<lparr>x_pos := (max_x tmino - min_x tmino) div 2,
                                        y_pos := min_y tmino\<rparr>]) g')))
      else Inr (seq, g))"
  by pat_completeness auto
termination
proof (relation "measure (\<lambda>(geo, id_list, seq, g). length id_list)")
  show "wf (measure (\<lambda>(geo, id_list, seq, g). length id_list))" by simp
next
  fix geo :: geometry and id_list :: "int list" and seq :: "Tetromino list" and g :: rng
    and x2 :: "int \<times> rng" and rand_idx :: int and g' :: rng and i :: int and tmino :: Tetromino
  assume ne: "length id_list \<noteq> 0"
    and r: "randint 0 (int (length id_list) - 1) g = Inr x2" "(rand_idx, g') = x2"
  from r have "0 \<le> rand_idx" "rand_idx \<le> int (length id_list) - 1"
    by (auto simp: randint_def split: if_splits)
  then have "length (pop_at id_list (nat rand_idx)) < length id_list"
    using ne by (simp add: pop_at_def)
  then show "((geo, pop_at id_list (nat rand_idx),
                seq @ [tmino\<lparr>x_pos := (max_x tmino - min_x tmino) div 2, y_pos := min_y tmino\<rparr>], g'),
               (geo, id_list, seq, g)) \<in> measure (\<lambda>(geo, id_list, seq, g). length id_list)"
    by simp
qed

declare generate_loop.simps [simp del]

definition generate_tetromino_seq :: "geometry \<Rightarrow> rng \<Rightarrow> error + Tetromino list \<times> rng" where
  "generate_tetromino_seq geo g =
     generate_loop geo (py_range2 1 (unique_types geo + 1)) [] g"

text \<open>
  \<open>place_tetromino()\<close>, first part: the occupied cells of the mask that fall inside the
  board are written into the grid with the id of the piece.
\<close>

fun write_loop :: "nat \<Rightarrow> nat \<Rightarrow> Tetromino \<Rightarrow> (int \<times> int) list \<Rightarrow> grid \<Rightarrow> error + grid" where
  "write_loop W H t [] gr = Inr gr"
| "write_loop W H t ((x, y) # cs) gr =
     err_bind (py_get2 (block_data t) x y) (\<lambda>b.
       if b then
         (let grid_x = x + x_pos t; grid_y = y + y_pos t in
          if grid_x < 0 \<or> grid_x \<ge> int W \<or> grid_y < 0 \<or> grid_y \<ge> int H
          then write_loop W H t cs gr
          else err_bind (py_set2 gr grid_x grid_y (tmino_id t)) (\<lambda>gr'. write_loop W H t cs gr'))
       else write_loop W H t cs gr)"

text \<open>
  Second part.  \<open>for x in range(grid_width)\<close> testing \<open>grid[x][current_y] == 0\<close> with
  \<open>break\<close>; and the two loops of the form \<open>for x in range(grid_width): grid[x][y] = ...\<close>,
  whose right-hand side is read in the grid as it is at that moment.
\<close>

fun line_cleared_loop :: "grid \<Rightarrow> int \<Rightarrow> int list \<Rightarrow> error + bool" where
  "line_cleared_loop gr current_y [] = Inr True"
| "line_cleared_loop gr current_y (x # xs) =
     err_bind (py_get2 gr x current_y) (\<lambda>v.
       if v = 0 then Inr False else line_cleared_loop gr current_y xs)"

fun assign_row :: "int list \<Rightarrow> int \<Rightarrow> (grid \<Rightarrow> int \<Rightarrow> error + int) \<Rightarrow> grid \<Rightarrow> error + grid" where
  "assign_row [] y rhs gr = Inr gr"
| "assign_row (x # xs) y rhs gr =
     err_bind (rhs gr x) (\<lambda>v. err_bind (py_set2 gr x y v) (\<lambda>gr'. assign_row xs y rhs gr'))"

text \<open>\<open>for y in range(current_y, 0, -1): for x in range(grid_width): grid[x][y] = grid[x][y - 1]\<close>\<close>

fun shift_loop :: "nat \<Rightarrow> int list \<Rightarrow> grid \<Rightarrow> error + grid" where
  "shift_loop W [] gr = Inr gr"
| "shift_loop W (y # ys) gr =
     err_bind (assign_row (py_range W) y (\<lambda>gr x. py_get2 gr x (y - 1)) gr) (\<lambda>gr'.
       shift_loop W ys gr')"

text \<open>\<open>range(a, 0, -1)\<close>\<close>

definition py_range_down :: "int \<Rightarrow> int list" where
  "py_range_down a = map (\<lambda>k. a - int k) [0..<nat a]"

text \<open>
  \<open>for i in range(size)\<close>, on the state \<open>(grid, lines_cleared, current_y)\<close>: a row below
  the board is skipped; a cleared row leaves \<open>current_y\<close> where it is.
\<close>

fun clear_loop :: "nat \<Rightarrow> nat \<Rightarrow> nat \<Rightarrow> grid \<times> int \<times> int \<Rightarrow> error + grid \<times> int \<times> int" where
  "clear_loop W H 0 s = Inr s"
| "clear_loop W H (Suc n) (gr, lines, current_y) =
     (if current_y \<ge> int H then clear_loop W H n (gr, lines, current_y - 1)
      else
        err_bind (line_cleared_loop gr current_y (py_range W)) (\<lambda>line_cleared.
          if line_cleared then
            err_bind (shift_loop W (py_range_down current_y) gr) (\<lambda>gr'.
            err_bind (assign_row (py_range W) 0 (\<lambda>gr x. Inr 0) gr') (\<lambda>gr''.
              clear_loop W H n (gr'', lines + 1, current_y)))
          else clear_loop W H n (gr, lines, current_y - 1)))"

text \<open>The two parts together: the grid and the counter after the lock of the piece \<open>t\<close>.\<close>

definition lock_piece :: "Tetris \<Rightarrow> Tetromino \<Rightarrow> error + grid \<times> int" where
  "lock_piece self t =
     err_bind (write_loop (grid_width self) (grid_height self) t (cells (tmino_size t)) (game_grid self))
       (\<lambda>gr.
     err_bind (clear_loop (grid_width self) (grid_height self) (tmino_size t)
                 (gr, lines_cleared self, y_pos t + int (tmino_size t) - 1))
       (\<lambda>(gr', lines, current_y). Inr (gr', lines)))"

text \<open>
  \<open>place_tetromino()\<close>: the lock, then the next piece becomes the current one, the sequence
  is refilled when empty, its last piece becomes the next one, and the game is lost when
  the new current piece collides.
\<close>

definition place_tetromino :: "geometry \<Rightarrow> Tetris \<Rightarrow> rng \<Rightarrow> error + Tetris \<times> rng" where
  "place_tetromino geo self g =
     (case current_tmino self of
        None \<Rightarrow> Inl AttributeError
      | Some t \<Rightarrow>
          (case lock_piece self t of
             Inl e \<Rightarrow> Inl e
           | Inr (gr, lines) \<Rightarrow>
               rbind (if length (tmino_seq self) = 0 then generate_tetromino_seq geo
                      else rreturn (tmino_seq self)) (\<lambda>seq g'.
                 (case py_get seq (- 1) of
                    Inl e \<Rightarrow> Inl e
                  | Inr nxt \<Rightarrow>
                      (case is_colliding gr (next_tmino self) of
                         Inl e \<Rightarrow> Inl e
                       | Inr c \<Rightarrow>
                           Inr (self\<lparr> game_grid := gr, lines_cleared := lines,
                                       tmino_seq := butlast seq,
                                       current_tmino := (if c then None else Some (next_tmino self)),
                                       next_tmino := nxt,
                                       lost := (if c then True else lost self) \<rparr>, g')))) g))"

text \<open>
  The rows of a grid from top to bottom, a full row, and what the lock is to leave: the
  rows that are not full, in their order, under as many rows of zeros as rows were full.
\<close>

definition rows_of :: "nat \<Rightarrow> nat \<Rightarrow> grid \<Rightarrow> int list list" where
  "rows_of W H gr = map (\<lambda>y. map (\<lambda>x. gr ! x ! y) [0..<W]) [0..<H]"

definition full_row :: "int list \<Rightarrow> bool" where
  "full_row row = list_all (\<lambda>v. v \<noteq> 0) row"

definition count_full :: "int list list \<Rightarrow> nat" where
  "count_full rows = length (filter full_row rows)"

definition without_full :: "nat \<Rightarrow> int list list \<Rightarrow> int list list" where
  "without_full W rows =
     replicate (count_full rows) (replicate W 0) @ filter (\<lambda>row. \<not> full_row row) rows"

text \<open>The grids of a game in play hold no full row.\<close>

definition no_full_row :: "nat \<Rightarrow> nat \<Rightarrow> grid \<Rightarrow> bool" where
  "no_full_row W H gr = list_all (\<lambda>row. \<not> full_row row) (rows_of W H gr)"

text \<open>A grid of \<open>W\<close> columns of \<open>H\<close> cells.\<close>

definition wfg :: "nat \<Rightarrow> nat \<Rightarrow> grid \<Rightarrow> bool" where
  "wfg W H gr = (length gr = W \<and> (\<forall>col \<in> set gr. length col = H))"

text \<open>
  A column after the rows \<open>1..j\<close> were shifted down by one, and after its top cell was set
  to \<open>0\<close> as well: the cell \<open>j\<close> is gone and a \<open>0\<close> stands on top.
\<close>

definition shifted :: "nat \<Rightarrow> int list \<Rightarrow> int list" where
  "shifted j col = take 1 col @ take j col @ drop (Suc j) col"

definition cleared_col :: "nat \<Rightarrow> int list \<Rightarrow> int list" where
  "cleared_col j col = 0 # take j col @ drop (Suc j) col"

text \<open>
  A game to run the lock on: the 2 by 2 piece at \<open>(2, 2)\<close> on the board of width 4 and
  height 4 whose bottom row holds two cells.
\<close>

definition spawn_O :: Tetromino where "spawn_O = piece_O\<lparr>x_pos := 1\<rparr>"

definition game_0 :: Tetris where
  "game_0 = \<lparr> grid_width = 4, grid_height = 4, cell_width = 40, lost = False, lines_cleared = 0,
      game_grid = [[0, 0, 0, 1], [0, 0, 0, 1], [0, 0, 0, 0], [0, 0, 0, 0]],
      tmino_seq = [spawn_O], current_tmino = Some (piece_O\<lparr>x_pos := 2, y_pos := 2\<rparr>),
      next_tmino = spawn_O, next_move = None \<rparr>"


section \<open>tetro.py: the generations\<close>

text \<open>The fields of \<open>Tetro\<close> that \<open>next_generation\<close> reads or writes.\<close>

record Tetro = board +
  population_size :: nat
  selection_size :: nat
  mutate_rate :: real
  generation :: int
  tetris_instances :: "Tetris list"
  tetris_ais :: "real TetrisAI list"


text \<open>
  \<open>fitness_scores\<close>: the pairs \<open>(lines_cleared, i)\<close>, sorted by \<open>lines_cleared\<close> with
  Python's stable sort, then reversed.
\<close>

definition fitness_scores :: "Tetris list \<Rightarrow> (int \<times> nat) list" where
  "fitness_scores insts =
     rev (sort_key fst (map (\<lambda>i. (lines_cleared (insts ! i), i)) [0..<length insts]))"











text \<open>A geometry table of at least two shapes, with four types and one rotation list for each.\<close>

definition wf_geometry :: "geometry \<Rightarrow> bool" where
  "wf_geometry geo =
     (2 \<le> unique_types geo
      \<and> int (length (tmino_list geo)) = 4 * unique_types geo
      \<and> int (length (unique_tmino_list geo)) = unique_types geo)"

text \<open>A later state of the generator: some results of each kind have been consumed.\<close>

definition rng_later :: "rng \<Rightarrow> rng \<Rightarrow> bool" where
  "rng_later g g' =
     (\<exists>a b. floats g' = (\<lambda>k. floats g (k + a)) \<and> ints g' = (\<lambda>k. ints g (k + b)))"






section \<open>tetromino.py: the geometry table\<close>



text \<open>
  Computations that may raise and may also never return: \<open>None\<close> is the run without end.
\<close>

definition oe_bind :: "(error + 'a) option \<Rightarrow> ('a \<Rightarrow> (error + 'b) option) \<Rightarrow> (error + 'b) option" where
  "oe_bind m f = (case m of None \<Rightarrow> None | Some (Inl e) \<Rightarrow> Some (Inl e) | Some (Inr v) \<Rightarrow> f v)"














section \<open>tetromino.py: loading the shape definitions\<close>

text \<open>
  The string operations \<open>load\<close> uses, on text whose characters have code points below
  256 (the characters of a \<open>string\<close>): \<open>strip()\<close>, the list that
  \<open>regexp.split('(\s+)', line)\<close> returns (the texts between the runs of whitespace,
  alternating with those runs), \<open>find\<close>, the slice \<open>line[:idx]\<close>, \<open>split(',')\<close> and \<open>int\<close>.

  \<open>strip()\<close> and \<open>\s\<close> take as whitespace the characters 9 to 13, 28 to 32, 133 and 160.
\<close>

definition is_space :: "char \<Rightarrow> bool" where
  "is_space c = (of_char c \<in> {9, 10, 11, 12, 13, 28, 29, 30, 31, 32, 133, 160 :: nat})"

definition strip :: "string \<Rightarrow> string" where
  "strip s = rev (dropWhile is_space (rev (dropWhile is_space s)))"





fun split_on :: "char \<Rightarrow> string \<Rightarrow> string list" where
  "split_on c [] = [[]]"
| "split_on c (x # xs) =
     (if x = c then [] # split_on c xs
      else (x # hd (split_on c xs)) # tl (split_on c xs))"

text \<open>
  \<open>int(token)\<close> reads a decimal literal: whitespace around it, an optional sign, then
  digits with single underscores between them.  The whitespace \<open>int\<close> skips is not that of
  \<open>strip()\<close>: it is the characters 9 to 13, 32, 133 and 160 only, so that the characters 28
  to 31 make the literal invalid.  A literal of more than \<open>sys.int_max_str_digits\<close> digits
  (4300 unless the interpreter is set up otherwise) is refused with \<open>ValueError\<close> as well.
\<close>

definition int_space :: "char \<Rightarrow> bool" where
  "int_space c = (of_char c \<in> {9, 10, 11, 12, 13, 32, 133, 160 :: nat})"

definition int_max_str_digits :: nat where
  "int_max_str_digits = 4300"

definition is_digit :: "char \<Rightarrow> bool" where
  "is_digit c = (48 \<le> (of_char c :: nat) \<and> (of_char c :: nat) \<le> 57)"

definition py_int :: "string \<Rightarrow> error + int" where
  "py_int s =
     (let t = rev (dropWhile int_space (rev (dropWhile int_space s)));
          negative = (t \<noteq> [] \<and> hd t = CHR ''-'');
          body = (if t \<noteq> [] \<and> (hd t = CHR ''-'' \<or> hd t = CHR ''+'') then tl t else t);
          groups = split_on CHR ''_'' body
      in if list_all (\<lambda>g. g \<noteq> [] \<and> list_all is_digit g) groups
            \<and> length (concat groups) \<le> int_max_str_digits
         then Inr ((if negative then - 1 else 1)
                   * foldl (\<lambda>a c. 10 * a + (int (of_char c) - 48)) 0 (concat groups))
         else Inl ValueError)"









text \<open>
  What the enumeration and the lock need of a piece in order not to raise: the mask has at
  least \<open>tmino_size\<close> columns of at least \<open>tmino_size\<close> entries, and the geometry table
  holds four rotations per shape with one list of unique rotations per shape.
\<close>

definition readable_mask :: "bool list list \<Rightarrow> nat \<Rightarrow> bool" where
  "readable_mask bd n = (n \<le> length bd \<and> (\<forall>x < n. n \<le> length (bd ! x)))"

definition table_ok :: "geometry \<Rightarrow> bool" where
  "table_ok geo =
     (int (length (tmino_list geo)) = 4 * unique_types geo
      \<and> int (length (unique_tmino_list geo)) = unique_types geo
      \<and> (\<forall>ty \<in> set (tmino_list geo). readable_mask (block_data ty) (tmino_size ty)))"

section \<open>Verification\<close>

lemma collect_map_Inr:
  "(\<And>x. x \<in> set xs \<Longrightarrow> f x = Inr (g x)) \<Longrightarrow> collect (map f xs) = Inr (map g xs)"
  by (induction xs) auto

lemma py_get_nat: "i < length xs \<Longrightarrow> py_get xs (int i) = Inr (xs ! i)"
  by (simp add: py_get_def)

lemma py_get2_nat:
  "x < length g \<Longrightarrow> y < length (g ! x) \<Longrightarrow> py_get2 g (int x) (int y) = Inr (g ! x ! y)"
  by (simp add: py_get2_def err_bind_def py_get_nat)

lemma rotate_square: "square bd \<Longrightarrow> rotate bd = Inr (rot bd)"
  unfolding rotate_def rot_def Let_def py_range_def map_map
  apply (rule collect_map_Inr)
  apply (simp add: comp_def)
  apply (rule collect_map_Inr)
  apply (auto simp: square_def)
  subgoal for x y
    using py_get2_nat[of y bd "length bd - x - 1"]
    by (simp add: algebra_simps)
  done

lemma length_rot: "length (rot bd) = length bd"
  by (simp add: rot_def)

lemma length_rot_nth: "x < length bd \<Longrightarrow> length (rot bd ! x) = length bd"
  by (simp add: rot_def)

lemma rot_nth:
  "x < length bd \<Longrightarrow> y < length bd \<Longrightarrow> rot bd ! x ! y = bd ! y ! (length bd - x - 1)"
  by (simp add: rot_def)

lemma square_rot: "square (rot bd)"
  by (auto simp: square_def rot_def)

lemma rot4:
  assumes "square bd"
  shows "rot (rot (rot (rot bd))) = bd"
proof (rule nth_equalityI)
  show "length (rot (rot (rot (rot bd)))) = length bd" by (simp add: length_rot)
next
  fix x assume "x < length (rot (rot (rot (rot bd))))"
  then have x: "x < length bd" by (simp add: length_rot)
  show "rot (rot (rot (rot bd))) ! x = bd ! x"
  proof (rule nth_equalityI)
    show "length (rot (rot (rot (rot bd))) ! x) = length (bd ! x)"
      using x assms by (simp add: length_rot_nth length_rot square_def)
  next
    fix y assume "y < length (rot (rot (rot (rot bd))) ! x)"
    then have y: "y < length bd" using x by (simp add: length_rot_nth length_rot)
    let ?n = "length bd"
    have "rot (rot (rot (rot bd))) ! x ! y = rot (rot (rot bd)) ! y ! (?n - x - 1)"
      using x y by (simp add: rot_nth length_rot)
    also have "\<dots> = rot (rot bd) ! (?n - x - 1) ! (?n - y - 1)"
      using x y by (simp add: rot_nth length_rot)
    also have "\<dots> = rot bd ! (?n - y - 1) ! (?n - (?n - x - 1) - 1)"
      using x y by (simp add: rot_nth length_rot)
    also have "\<dots> = bd ! (?n - (?n - x - 1) - 1) ! (?n - (?n - y - 1) - 1)"
      using x y by (simp add: rot_nth length_rot)
    also have "\<dots> = bd ! x ! y" using x y by simp
    finally show "rot (rot (rot (rot bd))) ! x ! y = bd ! x ! y" .
  qed
qed

subsection \<open>C8: four clockwise rotations\<close>

text \<open>
  C8.  For every square boolean mask, calling \<open>rotate\<close> four times in a row raises no
  exception and returns a mask equal to the original one.
\<close>

theorem rotate_four_times_identity: "square bd \<Longrightarrow> rotate4 bd = Inr bd"
  by (simp add: rotate4_def rotate_square square_rot err_bind_def rot4)

theorem rotate_four_times_identity_witness:
  "square [[False, True, False], [False, True, True], [False, True, False]]
   \<and> rotate4 [[False, True, False], [False, True, True], [False, True, False]]
       = Inr [[False, True, False], [False, True, True], [False, True, False]]"
  using rotate_four_times_identity [of "[[False, True, False], [False, True, True], [False, True, False]]"]
  by (simp add: square_def)

lemma err_bind_Inr [simp]: "err_bind (Inr v) f = f v"
  by (simp add: err_bind_def)

lemma err_bind_Inl [simp]: "err_bind (Inl e) f = Inl e"
  by (simp add: err_bind_def)

lemma py_get_in: "0 \<le> i \<Longrightarrow> i < int (length xs) \<Longrightarrow> py_get xs i = Inr (xs ! nat i)"
  by (simp add: py_get_def)

lemma grid_read:
  "wf_grid ai grid \<Longrightarrow> 0 \<le> x \<Longrightarrow> x < int (grid_width ai) \<Longrightarrow> 0 \<le> y \<Longrightarrow> y < int (grid_height ai)
   \<Longrightarrow> py_get2 grid x y = Inr (grid ! nat x ! nat y)"
  by (simp add: py_get2_def py_get_in wf_grid_def)

lemma set_py_range: "set (py_range n) = {i. 0 \<le> i \<and> i < int n}"
  apply (auto simp: py_range_def)
  subgoal for i by (rule image_eqI[where x="nat i"]) auto
  done

lemma set_py_range2: "set (py_range2 a b) = {i. a \<le> i \<and> i < b}"
  apply (auto simp: py_range2_def)
  subgoal for i by (rule image_eqI[where x="nat (i - a)"]) auto
  done

lemma length_py_range [simp]: "length (py_range n) = n"
  by (simp add: py_range_def)

lemma first_filled_wf:
  assumes "wf_grid ai grid" "0 \<le> x" "x < int (grid_width ai)"
    and "\<forall>y \<in> set ys. 0 \<le> y \<and> y < int (grid_height ai)"
  shows "\<exists>r. first_filled grid x ys = Inr r \<and> (\<forall>y. r = Some y \<longrightarrow> y \<in> set ys)"
  using assms(4)
proof (induction ys)
  case Nil
  then show ?case by simp
next
  case (Cons y ys)
  then obtain r where "first_filled grid x ys = Inr r" "\<forall>y. r = Some y \<longrightarrow> y \<in> set ys"
    by auto
  moreover have "py_get2 grid x y = Inr (grid ! nat x ! nat y)"
    using Cons.prems assms(1-3) by (simp add: grid_read)
  ultimately show ?case by auto
qed

lemma collect_map_ex:
  "(\<And>x. x \<in> set xs \<Longrightarrow> \<exists>v. f x = Inr v \<and> P v)
   \<Longrightarrow> \<exists>vs. collect (map f xs) = Inr vs \<and> length vs = length xs \<and> (\<forall>v \<in> set vs. P v)"
proof (induction xs)
  case Nil
  then show ?case by simp
next
  case (Cons a xs)
  then obtain vs where vs: "collect (map f xs) = Inr vs" "length vs = length xs" "\<forall>v \<in> set vs. P v"
    by auto
  from Cons.prems[of a] obtain v where "f a = Inr v" "P v" by auto
  with vs show ?case by auto
qed

lemma compute_heightmap_wf:
  assumes "wf_grid ai grid"
  shows "\<exists>hs. compute_heightmap ai grid = Inr hs \<and> length hs = grid_width ai
          \<and> (\<forall>h \<in> set hs. 0 \<le> h \<and> h \<le> int (grid_height ai))"
proof -
  let ?f = "\<lambda>x. err_bind (first_filled grid x (py_range (grid_height ai)))
                          (\<lambda>r. Inr (case r of Some y \<Rightarrow> int (grid_height ai) - y | None \<Rightarrow> 0))"
  have "\<exists>h. ?f x = Inr h \<and> 0 \<le> h \<and> h \<le> int (grid_height ai)"
    if "x \<in> set (py_range (grid_width ai))" for x
  proof -
    from that have x: "0 \<le> x" "x < int (grid_width ai)" by (auto simp: set_py_range)
    from first_filled_wf[OF assms x, of "py_range (grid_height ai)"]
    obtain r where r: "first_filled grid x (py_range (grid_height ai)) = Inr r"
      "\<forall>y. r = Some y \<longrightarrow> y \<in> set (py_range (grid_height ai))"
      by (auto simp: set_py_range)
    then show ?thesis
      by (cases r) (auto simp: set_py_range)
  qed
  from collect_map_ex[of "py_range (grid_width ai)" ?f "\<lambda>h. 0 \<le> h \<and> h \<le> int (grid_height ai)", OF this]
  show ?thesis by (simp add: compute_heightmap_def)
qed





lemma cells_filled_loop_wf:
  assumes "wf_grid ai grid" "0 \<le> y" "y < int (grid_height ai)"
    and "\<forall>x \<in> set xs. 0 \<le> x \<and> x < int (grid_width ai)"
  shows "\<exists>c'. cells_filled_loop grid y xs c = Inr c' \<and> c \<le> c' \<and> c' \<le> c + int (length xs)"
  using assms(4)
proof (induction xs arbitrary: c)
  case Nil
  then show ?case by simp
next
  case (Cons x xs)
  have rd: "py_get2 grid x y = Inr (grid ! nat x ! nat y)"
    using Cons.prems assms(1-3) by (simp add: grid_read)
  let ?c = "if grid ! nat x ! nat y \<noteq> 0 then c + 1 else c"
  from Cons.IH[of ?c] Cons.prems obtain c' where
    "cells_filled_loop grid y xs ?c = Inr c'" "?c \<le> c'" "c' \<le> ?c + int (length xs)"
    by auto
  then show ?case using rd by (auto split: if_splits)
qed

lemma read_weight_ok:
  assumes "wf_weights ai" "grid_width ai = W" "read_in_range W (l, i)" "reads_ok W rds"
  shows "\<exists>w rds'. read_weight ai l i rds = Inr (w, rds') \<and> reads_ok W rds'"
  using assms
  by (cases l) (auto simp: read_weight_def wf_weights_def read_in_range_def reads_ok_def py_get_in)

lemma row_loop_wf:
  assumes "wf_grid ai grid" "wf_weights ai" 
    and "\<forall>y \<in> set ys. 0 \<le> y \<and> y < int (grid_height ai)" "reads_ok (grid_width ai) (snd s)"
  shows "\<exists>s'. row_loop ai grid ys s = Inr s' \<and> reads_ok (grid_width ai) (snd s')"
  using assms(3,4)
proof (induction ys arbitrary: s)
  case Nil
  then show ?case by simp
next
  case (Cons y ys)
  obtain score rds where s: "s = (score, rds)" by (cases s)
  from cells_filled_loop_wf[OF assms(1), of y "py_range (grid_width ai)" 0] Cons.prems
  obtain c where c: "cells_filled_loop grid y (py_range (grid_width ai)) 0 = Inr c"
      "0 \<le> c" "c \<le> int (grid_width ai)"
    by (auto simp: set_py_range)
  from read_weight_ok[OF assms(2) refl, of RowFilled c rds] c Cons.prems s
  obtain w rds' where w: "read_weight ai RowFilled c rds = Inr (w, rds')" "reads_ok (grid_width ai) rds'"
    by (auto simp: read_in_range_def)
  from Cons.IH[of "(score + w, rds')"] Cons.prems w
  obtain s' where "row_loop ai grid ys (score + w, rds') = Inr s'" "reads_ok (grid_width ai) (snd s')"
    by auto
  then show ?case using s c w by simp
qed

lemma hole_loop_wf:
  assumes "wf_grid ai grid" "wf_weights ai" "0 \<le> x" "x < int (grid_width ai)"
    and "\<forall>y \<in> set ys. 0 \<le> y \<and> y < int (grid_height ai)" 
    and "reads_ok (grid_width ai) (snd (fst s))" "0 \<le> snd s"
  shows "\<exists>s'. hole_loop ai grid x ys s = Inr s' \<and> reads_ok (grid_width ai) (snd (fst s')) \<and> 0 \<le> snd s'"
  using assms(5-7)
proof (induction ys arbitrary: s)
  case Nil
  then show ?case by simp
next
  case (Cons y ys)
  obtain score rds hh where s: "s = ((score, rds), hh)" by (cases s) auto
  have rd: "py_get2 grid x y = Inr (grid ! nat x ! nat y)"
    using Cons.prems assms(1-4) by (simp add: grid_read)
  show ?case
  proof (cases "grid ! nat x ! nat y \<noteq> 0")
    case True
    show ?thesis
    proof (cases "hh > 0")
      case hh: True
      then have "read_in_range (grid_width ai) (HoleHeight, min hh hole_height_cap - 1)"
        by (auto simp: read_in_range_def hole_height_cap_def)
      from read_weight_ok[OF assms(2) refl this, of rds] Cons.prems s
      obtain w rds' where w: "read_weight ai HoleHeight (min hh hole_height_cap - 1) rds = Inr (w, rds')"
          "reads_ok (grid_width ai) rds'"
        by auto
      from Cons.IH[of "((score - w, rds'), 0)"] Cons.prems w
      obtain s' where "hole_loop ai grid x ys ((score - w, rds'), 0) = Inr s'"
        "reads_ok (grid_width ai) (snd (fst s'))" "0 \<le> snd s'"
        by auto
      then show ?thesis using s rd True hh w by simp
    next
      case False
      from Cons.IH[of s] Cons.prems
      obtain s' where "hole_loop ai grid x ys s = Inr s'"
        "reads_ok (grid_width ai) (snd (fst s'))" "0 \<le> snd s'"
        by auto
      then show ?thesis using s rd True False by simp
    qed
  next
    case False
    from Cons.IH[of "((score, rds), hh + 1)"] Cons.prems s
    obtain s' where "hole_loop ai grid x ys ((score, rds), hh + 1) = Inr s'"
      "reads_ok (grid_width ai) (snd (fst s'))" "0 \<le> snd s'"
      by auto
    then show ?thesis using s rd False by simp
  qed
qed

lemma column_loop_wf:
  assumes "wf_grid ai grid" "wf_weights ai" 
    and "length hs = grid_width ai" "\<forall>h \<in> set hs. 0 \<le> h \<and> h \<le> int (grid_height ai)"
    and "\<forall>x \<in> set xs. 0 \<le> x \<and> x < int (grid_width ai)" 
    and "reads_ok (grid_width ai) (snd s)"
  shows "\<exists>s'. column_loop ai grid hs xs s = Inr s' \<and> reads_ok (grid_width ai) (snd s')"
  using assms(5,6)
proof (induction xs arbitrary: s)
  case Nil
  then show ?case by simp
next
  case (Cons x xs)
  have x: "0 \<le> x" "x < int (grid_width ai)" using Cons.prems by auto
  then have h: "py_get hs x = Inr (hs ! nat x)" using assms(3) by (simp add: py_get_in)
  have hb: "0 \<le> hs ! nat x" "hs ! nat x \<le> int (grid_height ai)"
    using assms(3,4) x by (auto simp: all_set_conv_all_nth)
  let ?ys = "py_range2 (int (grid_height ai) - hs ! nat x) (int (grid_height ai))"
  have ys: "\<forall>y \<in> set ?ys. 0 \<le> y \<and> y < int (grid_height ai)"
    using hb by (auto simp: set_py_range2)
  from hole_loop_wf[OF assms(1,2) x ys, of "(s, 0)"] Cons.prems
  obtain score rds hh where hl: "hole_loop ai grid x ?ys (s, 0) = Inr ((score, rds), hh)"
      "reads_ok (grid_width ai) rds" "0 \<le> hh"
    by fastforce
  show ?case
  proof (cases "hh > 0")
    case True
    then have "read_in_range (grid_width ai) (HoleHeight, min hh (hole_height_cap - 1))"
      by (auto simp: read_in_range_def hole_height_cap_def)
    from read_weight_ok[OF assms(2) refl this hl(2)]
    obtain w rds' where w: "read_weight ai HoleHeight (min hh (hole_height_cap - 1)) rds = Inr (w, rds')"
        "reads_ok (grid_width ai) rds'"
      by auto
    from Cons.IH[of "(score - w, rds')"] Cons.prems w
    obtain s' where "column_loop ai grid hs xs (score - w, rds') = Inr s'" "reads_ok (grid_width ai) (snd s')"
      by auto
    then show ?thesis using h hl True w by simp
  next
    case False
    from Cons.IH[of "(score, rds)"] Cons.prems hl
    obtain s' where "column_loop ai grid hs xs (score, rds) = Inr s'" "reads_ok (grid_width ai) (snd s')"
      by auto
    then show ?thesis using h hl False by simp
  qed
qed

lemma diff_loop_wf:
  assumes "wf_weights ai" 
    and "\<forall>i \<in> set is. 1 \<le> i \<and> i < int (length hs)" 
    and "reads_ok (grid_width ai) (snd s)"
  shows "\<exists>s'. diff_loop ai hs is s = Inr s' \<and> reads_ok (grid_width ai) (snd s')"
  using assms(2,3)
proof (induction "is" arbitrary: s)
  case Nil
  then show ?case by simp
next
  case (Cons i "is")
  obtain score rds where s: "s = (score, rds)" by (cases s)
  have i: "1 \<le> i" "i < int (length hs)" using Cons.prems by auto
  then have h: "py_get hs i = Inr (hs ! nat i)" "py_get hs (i - 1) = Inr (hs ! nat (i - 1))"
    by (simp_all add: py_get_in)
  let ?d = "min (abs (hs ! nat i - hs ! nat (i - 1))) (column_diff_cap - 1)"
  have "read_in_range (grid_width ai) (ColumnDiff, ?d)"
    by (auto simp: read_in_range_def column_diff_cap_def)
  from read_weight_ok[OF assms(1) refl this, of rds] Cons.prems s
  obtain w rds' where w: "read_weight ai ColumnDiff ?d rds = Inr (w, rds')"
      "reads_ok (grid_width ai) rds'"
    by auto
  from Cons.IH[of "(score - w, rds')"] Cons.prems w
  obtain s' where "diff_loop ai hs is (score - w, rds') = Inr s'" "reads_ok (grid_width ai) (snd s')"
    by auto
  then show ?case using s h w by simp
qed

lemma compute_score_log_wf:
  assumes "wf_grid ai grid" "wf_weights ai"
  shows "\<exists>score rds. compute_score_log ai grid = Inr (score, rds) \<and> reads_ok (grid_width ai) rds"
proof -
  from row_loop_wf[OF assms, of "py_range (grid_height ai)" "(0, [])"]
  obtain s1 where s1: "row_loop ai grid (py_range (grid_height ai)) (0, []) = Inr s1"
      "reads_ok (grid_width ai) (snd s1)"
    by (auto simp: set_py_range reads_ok_def)
  from compute_heightmap_wf[OF assms(1)]
  obtain hs where hs: "compute_heightmap ai grid = Inr hs" "length hs = grid_width ai"
      "\<forall>h \<in> set hs. 0 \<le> h \<and> h \<le> int (grid_height ai)"
    by auto
  from column_loop_wf[OF assms hs(2,3) _ s1(2), of "py_range (grid_width ai)"]
  obtain s2 where s2: "column_loop ai grid hs (py_range (grid_width ai)) s1 = Inr s2"
      "reads_ok (grid_width ai) (snd s2)"
    by (auto simp: set_py_range)
  from diff_loop_wf[OF assms(2) _ s2(2), of "py_range2 1 (int (length hs))" hs]
  obtain s3 where s3: "diff_loop ai hs (py_range2 1 (int (length hs))) s2 = Inr s3"
      "reads_ok (grid_width ai) (snd s3)"
    by (auto simp: set_py_range2)
  show ?thesis
    using s1 hs s2 s3 by (cases s3) (simp add: compute_score_log_def)
qed

subsection \<open>C10: the reads of the weight lists stay in range\<close>

text \<open>
  C10.  For every grid of \<open>grid_width\<close> columns and \<open>grid_height\<close> rows, if
  \<open>row_filled_weights\<close> has \<open>grid_width + 1\<close> entries and the two other lists have
  \<open>5\<close> entries each, then \<open>compute_score\<close> returns a score (no \<open>IndexError\<close>) and every
  read of a weight list it makes has its index in range: \<open>0..grid_width\<close> for the row-fill
  list, \<open>0..4\<close> for the hole-height list and for the column-diff list.
\<close>

theorem compute_score_reads_in_range:
  assumes "wf_grid ai grid" "wf_weights ai"
  shows "(\<exists>score. compute_score ai grid = Inr score)
       \<and> (\<forall>r \<in> set (weight_reads ai grid). read_in_range (grid_width ai) r)"
  using compute_score_log_wf[OF assms]
  by (auto simp: compute_score_def weight_reads_def reads_ok_def)

theorem compute_score_reads_in_range_witness:
  "wf_grid ai_2x1 [[0], [1]] \<and> wf_weights ai_2x1
   \<and> compute_score ai_2x1 [[0], [1]] = Inr 0
   \<and> weight_reads ai_2x1 [[0], [1]] = [(RowFilled, 1), (ColumnDiff, 1)]
   \<and> list_all (read_in_range 2) (weight_reads ai_2x1 [[0], [1]])"
  using compute_score_reads_in_range [of ai_2x1 "[[0], [1]]"]
  by (simp add: ai_2x1_def wf_grid_def wf_weights_def weight_reads_def read_in_range_def
      compute_score_def compute_score_log_def compute_heightmap_def py_range_def py_range2_def
      py_get2_def py_get_def read_weight_def hole_height_cap_def column_diff_cap_def upt_rec)

subsection \<open>C6: the score of an empty board\<close>

lemma wf_empty_grid: "wf_grid ai (empty_grid (grid_width ai) (grid_height ai))"
  by (simp add: wf_grid_def empty_grid_def)








text \<open>
  With exact numbers, adding \<open>r0\<close> \<open>m\<close> times to \<open>0\<close> and then subtracting \<open>c0\<close> \<open>n\<close> times
  gives \<open>m * r0 - n * c0\<close>.  Floating-point sums are rounded at every step, so for them
  only the accumulation itself is the result.
\<close>

lemma accumulation_of_exact_numbers:
  fixes r0 c0 :: "'a::ring_1"
  shows "((\<lambda>s. s - c0) ^^ n) (((\<lambda>s. s + r0) ^^ m) 0) = of_nat m * r0 - of_nat n * c0"
proof -
  have a: "((\<lambda>s. s + r0) ^^ m) x = x + of_nat m * r0" for x
    by (induction m arbitrary: x) (simp_all add: algebra_simps)
  have b: "((\<lambda>s. s - c0) ^^ n) x = x - of_nat n * c0" for x
    by (induction n arbitrary: x) (simp_all add: algebra_simps)
  show ?thesis by (simp add: a b)
qed




subsection \<open>C2: the weight read for a run of holes\<close>

text \<open>
  C2.  The claim gives every run of empty cells below the top of a column the weight of index
  \<open>clip(runLength, 1, 5) - 1\<close>.  In one column with hole-height weights \<open>[1, 2, 3, 4, 5]\<close>
  and all other weights \<open>0\<close>: a run of length \<open>1\<close> between two occupied cells costs the
  weight of index \<open>0\<close>, as claimed, but a run of length \<open>1\<close> that ends at the bottom row
  costs the weight of index \<open>1\<close>.
\<close>

theorem trailing_hole_run_weight:
  "compute_score (ai_column 3) [[1, 0, 1]] = Inr (- 1)
   \<and> compute_score (ai_column 2) [[1, 0]] = Inr (- 2)"
  by (simp add: ai_column_def compute_score_def compute_score_log_def compute_heightmap_def py_range_def py_range2_def
      py_get2_def py_get_def read_weight_def hole_height_cap_def column_diff_cap_def upt_rec)

subsection \<open>C1: the placements of the move enumerator\<close>

lemma new_Tetromino_move:
  "new_Tetromino geo i r x y = Inr t \<Longrightarrow> new_Tetromino geo i r x' y' = Inr (t\<lparr>x_pos := x', y_pos := y'\<rparr>)"
  by (auto simp: new_Tetromino_def err_bind_def split: sum.splits)

lemma new_Tetromino_pos:
  "new_Tetromino geo i r x y = Inr t \<Longrightarrow> x_pos t = x \<and> y_pos t = y"
  by (auto simp: new_Tetromino_def err_bind_def split: sum.splits)

lemma same_piece_new: "new_Tetromino geo i r x y = Inr t \<Longrightarrow> same_piece geo i r t"
  by (auto simp: same_piece_def dest: new_Tetromino_pos)

lemma same_piece_x: "same_piece geo i r t \<Longrightarrow> same_piece geo i r (t\<lparr>x_pos := x\<rparr>)"
  unfolding same_piece_def using new_Tetromino_move[of geo i r "x_pos t" "y_pos t" t x "y_pos t"]
  by simp

lemma same_piece_y: "same_piece geo i r t \<Longrightarrow> same_piece geo i r (t\<lparr>y_pos := y\<rparr>)"
  unfolding same_piece_def using new_Tetromino_move[of geo i r "x_pos t" "y_pos t" t "x_pos t" y]
  by simp

lemma drop_loop_same_piece:
  "same_piece geo i r t \<Longrightarrow> drop_loop grid t js = Inr t' \<Longrightarrow> same_piece geo i r t'"
proof (induction js arbitrary: t)
  case Nil
  then show ?case by simp
next
  case (Cons j js)
  from Cons.prems(2) obtain c where c: "is_colliding grid (t\<lparr>y_pos := j\<rparr>) = Inr c"
    by (cases "is_colliding grid (t\<lparr>y_pos := j\<rparr>)") auto
  show ?case
  proof (cases c)
    case True
    with Cons.prems c show ?thesis by (auto simp: same_piece_y)
  next
    case False
    with Cons.prems(2) c have "drop_loop grid (t\<lparr>y_pos := j\<rparr>) js = Inr t'" by simp
    from Cons.IH[OF same_piece_y[OF Cons.prems(1)] this] show ?thesis .
  qed
qed

lemma is_colliding_loop_free:
  assumes "wf_grid ai grid" "is_colliding_loop grid t cs = Inr False"
  shows "list_all (free_cell (grid_width ai) (grid_height ai) grid t) cs"
  using assms(2)
proof (induction cs)
  case Nil
  then show ?case by simp
next
  case (Cons c cs)
  obtain cx cy where c: "c = (cx, cy)" by (cases c)
  from Cons.prems c obtain b where b: "py_get2 (block_data t) cx cy = Inr b"
    by (cases "py_get2 (block_data t) cx cy") auto
  show ?case
  proof (cases b)
    case False
    with Cons c b show ?thesis by (simp add: free_cell_def)
  next
    case True
    let ?gx = "cx + x_pos t" and ?gy = "cy + y_pos t"
    from Cons.prems c b True have in_x: "0 \<le> ?gx" "?gx < int (length grid)" and gy0: "0 \<le> ?gy"
      by (auto simp: Let_def split: if_splits)
    then have "0 < length grid" by linarith
    then have g0: "py_get grid 0 = Inr (grid ! 0)" by (simp add: py_get_def)
    have len0: "length (grid ! 0) = grid_height ai"
      using assms(1) in_x by (auto simp: wf_grid_def)
    from Cons.prems c b True in_x gy0 g0 have in_y: "?gy < int (grid_height ai)"
      by (auto simp: Let_def len0 split: if_splits)
    have W: "length grid = grid_width ai" using assms(1) by (simp add: wf_grid_def)
    have rd: "py_get2 grid ?gx ?gy = Inr (grid ! nat ?gx ! nat ?gy)"
      using grid_read[OF assms(1)] in_x gy0 in_y W by simp
    from Cons.prems c b True in_x gy0 g0 in_y rd
    have "grid ! nat ?gx ! nat ?gy = 0" "is_colliding_loop grid t cs = Inr False"
      by (auto simp: Let_def len0 split: if_splits)
    with Cons.IH c b True in_x gy0 in_y W show ?thesis
      by (simp add: free_cell_def)
  qed
qed

lemma is_colliding_free:
  assumes "wf_grid ai grid" "is_colliding grid t = Inr False" "same_piece geo i r t"
  shows "free_placement geo (grid_width ai) (grid_height ai) grid i (r, x_pos t, y_pos t)"
  using is_colliding_loop_free[OF assms(1), of t "cells (tmino_size t)"] assms(2,3)
  by (simp add: free_placement_def same_piece_def is_colliding_def)

lemma position_loop_free:
  assumes "wf_grid ai grid"
  shows "same_piece geo i r (fst s) \<Longrightarrow> list_all (free_placement geo (grid_width ai) (grid_height ai) grid i) (snd s)
    \<Longrightarrow> position_loop grid heights r is s = Inr s'
    \<Longrightarrow> list_all (free_placement geo (grid_width ai) (grid_height ai) grid i) (snd s')"
proof (induction "is" arbitrary: s)
  case Nil
  then show ?case by simp
next
  case (Cons j js)
  obtain t moves where s: "s = (t, moves)" by (cases s)
  let ?t1 = "t\<lparr>x_pos := j\<rparr>"
  from Cons.prems(3) s obtain gh col0 t2 c where
    steps: "py_get grid 0 = Inr col0"
      "drop_loop grid ?t1 (py_range2 (max (int (length col0) - gh - int (tmino_size ?t1)) (min_y ?t1)) (max_y ?t1 + 1)) = Inr t2"
      "is_colliding grid t2 = Inr c"
      "position_loop grid heights r js (t2, if \<not> c then moves @ [(r, x_pos t2, y_pos t2)] else moves) = Inr s'"
    by (auto simp: err_bind_def Let_def split: sum.splits)
  have sp: "same_piece geo i r t2"
    using drop_loop_same_piece[OF same_piece_x steps(2)] Cons.prems(1) s by simp
  have "list_all (free_placement geo (grid_width ai) (grid_height ai) grid i)
          (if \<not> c then moves @ [(r, x_pos t2, y_pos t2)] else moves)"
    using Cons.prems(2) s is_colliding_free[OF assms _ sp] steps(3) by auto
  with Cons.IH[OF _ _ steps(4)] sp show ?case by simp
qed

lemma rotation_loop_free:
  assumes "wf_grid ai grid"
  shows "list_all (free_placement geo (grid_width ai) (grid_height ai) grid i) moves
    \<Longrightarrow> rotation_loop geo grid heights i rs moves = Inr moves'
    \<Longrightarrow> list_all (free_placement geo (grid_width ai) (grid_height ai) grid i) moves'"
proof (induction rs arbitrary: moves)
  case Nil
  then show ?case by simp
next
  case (Cons r rs)
  from Cons.prems(2) obtain cur t moves1 where
    steps: "new_Tetromino geo i r 0 0 = Inr cur"
      "position_loop grid heights r (py_range2 (min_x cur) (max_x cur + 1)) (cur, moves) = Inr (t, moves1)"
      "rotation_loop geo grid heights i rs moves1 = Inr moves'"
    by (auto simp: err_bind_def split: sum.splits)
  from position_loop_free[OF assms, of geo i r "(cur, moves)", OF _ _ steps(2)] steps(1) Cons.prems(1)
  have "list_all (free_placement geo (grid_width ai) (grid_height ai) grid i) moves1"
    by (simp add: same_piece_new)
  from Cons.IH[OF this steps(3)] show ?case .
qed

text \<open>
  C1.  On a grid of \<open>grid_width\<close> columns and \<open>grid_height\<close> rows, every move
  \<open>(rotation, x, y)\<close> in the list that \<open>compute_moves_available\<close> returns denotes a free
  placement: every occupied cell of the mask of the piece in that rotation, placed at
  \<open>(x, y)\<close>, lies inside \<open>[0, grid_width) \<times> [0, grid_height)\<close> and on a grid cell that
  is \<open>0\<close>.
\<close>

theorem compute_moves_available_free:
  assumes "wf_grid ai grid" "compute_moves_available geo ai grid tetromino = Inr moves" "m \<in> set moves"
  shows "free_placement geo (grid_width ai) (grid_height ai) grid (tmino_id tetromino) m"
proof -
  from assms(2) obtain heights where
    "rotation_loop geo grid heights (tmino_id tetromino) (unique_rotations_list tetromino) [] = Inr moves"
    by (auto simp: compute_moves_available_def err_bind_def split: sum.splits)
  from rotation_loop_free[OF assms(1) _ this] assms(3) show ?thesis
    by (simp add: list_all_iff)
qed

theorem compute_moves_available_free_witness:
  "wf_grid dims_4x4 grid_4x4
   \<and> compute_moves_available geo_O dims_4x4 grid_4x4 piece_O = Inr [(0, 0, 0), (0, 1, 0)]
   \<and> free_placement geo_O 4 4 grid_4x4 1 (0, 1, 0)"
proof -
  have a: "wf_grid dims_4x4 grid_4x4"
    by (simp add: wf_grid_def dims_4x4_def grid_4x4_def)
  have b: "compute_moves_available geo_O dims_4x4 grid_4x4 piece_O = Inr [(0, 0, 0), (0, 1, 0)]"
    by code_simp
  have c: "(0, 1, 0) \<in> set [(0, 0, 0), (0, 1, 0) :: move]"
    by simp
  from compute_moves_available_free [OF a b c] a b show ?thesis
    by (simp add: dims_4x4_def piece_O_def)
qed

subsection \<open>C9: crossover copies its parents\<close>

lemma rbind_Inr [simp]: "m g = Inr (v, g') \<Longrightarrow> rbind m f g = f v g'"
  by (simp add: rbind_def)

lemma rbind_rreturn [simp]: "rbind (rreturn v) f g = f v g"
  by (simp add: rbind_def rreturn_def)

lemma randint_range:
  "a \<le> b \<Longrightarrow> \<exists>k g'. randint a b g = Inr (k, g') \<and> a \<le> k \<and> k \<le> b"
  by (simp add: randint_def) (smt (verit) pos_mod_bound pos_mod_sign)

lemma new_TetrisAI_nonempty:
  "rfw \<noteq> [] \<Longrightarrow> hhw \<noteq> [] \<Longrightarrow> cdw \<noteq> [] \<Longrightarrow>
   new_TetrisAI W H rfw hhw cdw g = Inr (\<lparr> grid_width = W, grid_height = H, row_filled_weights = rfw,
                 hole_height_weights = hhw, column_diff_weights = cdw \<rparr>, g)"
  by (simp add: new_TetrisAI_def) (simp add: rreturn_def)

lemma spliced_take_drop:
  "length a = length b \<Longrightarrow> k \<le> length b \<Longrightarrow> spliced a b (take k a @ drop k b)"
  unfolding spliced_def
  by (rule exI[of _ k]) (auto simp: nth_append min_def)

lemma take_drop_nonempty:
  "length a = length b \<Longrightarrow> b \<noteq> [] \<Longrightarrow> take k a @ drop k b \<noteq> []"
  by (cases "k = 0") auto

text \<open>
  C9.  For two parents whose three weight lists have pairwise the same lengths (and are
  not empty, as the lists of every constructed AI), \<open>crossover\<close> returns a child, and each
  list of the child is spliced from the parents' lists: it has their length, and there is
  a split index before which every entry equals the first parent's entry at the same index
  and from which on every entry equals the second parent's entry at the same index.
\<close>

theorem crossover_spliced:
  assumes "length (row_filled_weights A) = length (row_filled_weights B)"
    and "length (hole_height_weights A) = length (hole_height_weights B)"
    and "length (column_diff_weights A) = length (column_diff_weights B)"
    and "nonempty_weights B"
  shows "\<exists>C g'. crossover A B g = Inr (C, g')
           \<and> spliced (row_filled_weights A) (row_filled_weights B) (row_filled_weights C)
           \<and> spliced (hole_height_weights A) (hole_height_weights B) (hole_height_weights C)
           \<and> spliced (column_diff_weights A) (column_diff_weights B) (column_diff_weights C)"
proof -
  from randint_range[of 0 "int (length (row_filled_weights B))" g]
  obtain k1 g1 where k1: "randint 0 (int (length (row_filled_weights B))) g = Inr (k1, g1)"
      "0 \<le> k1" "k1 \<le> int (length (row_filled_weights B))" by auto
  from randint_range[of 0 "int (length (hole_height_weights B))" g1]
  obtain k2 g2 where k2: "randint 0 (int (length (hole_height_weights B))) g1 = Inr (k2, g2)"
      "0 \<le> k2" "k2 \<le> int (length (hole_height_weights B))" by auto
  from randint_range[of 0 "int (length (column_diff_weights B))" g2]
  obtain k3 g3 where k3: "randint 0 (int (length (column_diff_weights B))) g2 = Inr (k3, g3)"
      "0 \<le> k3" "k3 \<le> int (length (column_diff_weights B))" by auto
  let ?r = "take (nat k1) (row_filled_weights A) @ drop (nat k1) (row_filled_weights B)"
  let ?h = "take (nat k2) (hole_height_weights A) @ drop (nat k2) (hole_height_weights B)"
  let ?c = "take (nat k3) (column_diff_weights A) @ drop (nat k3) (column_diff_weights B)"
  have ne: "?r \<noteq> []" "?h \<noteq> []" "?c \<noteq> []"
    using assms by (simp_all only: take_drop_nonempty nonempty_weights_def not_False_eq_True)
  have "crossover A B g = new_TetrisAI (grid_width B) (grid_height B) ?r ?h ?c g3"
    by (simp add: crossover_def k1 k2 k3)
  also note new_TetrisAI_nonempty[OF ne]
  finally have "crossover A B g = Inr (\<lparr> grid_width = grid_width B, grid_height = grid_height B,
      row_filled_weights = ?r, hole_height_weights = ?h, column_diff_weights = ?c \<rparr>, g3)" .
  moreover have "spliced (row_filled_weights A) (row_filled_weights B) ?r"
    using assms(1) k1 by (intro spliced_take_drop) auto
  moreover have "spliced (hole_height_weights A) (hole_height_weights B) ?h"
    using assms(2) k2 by (intro spliced_take_drop) auto
  moreover have "spliced (column_diff_weights A) (column_diff_weights B) ?c"
    using assms(3) k3 by (intro spliced_take_drop) auto
  ultimately show ?thesis by simp
qed

theorem crossover_spliced_witness:
  "length (row_filled_weights ai_p) = length (row_filled_weights ai_q)
   \<and> length (hole_height_weights ai_p) = length (hole_height_weights ai_q)
   \<and> length (column_diff_weights ai_p) = length (column_diff_weights ai_q)
   \<and> nonempty_weights ai_q
   \<and> (\<exists>C g'. crossover ai_p ai_q rng_half = Inr (C, g')
         \<and> spliced (row_filled_weights ai_p) (row_filled_weights ai_q) (row_filled_weights C)
         \<and> spliced (hole_height_weights ai_p) (hole_height_weights ai_q) (hole_height_weights C)
         \<and> spliced (column_diff_weights ai_p) (column_diff_weights ai_q) (column_diff_weights C)
         \<and> row_filled_weights C = [3, 70]
         \<and> hole_height_weights C = [1, 2, 30, 40, 50]
         \<and> column_diff_weights C = [1, 2, 3, 40, 50])"
proof -
  have h: "length (row_filled_weights ai_p) = length (row_filled_weights ai_q)"
    "length (hole_height_weights ai_p) = length (hole_height_weights ai_q)"
    "length (column_diff_weights ai_p) = length (column_diff_weights ai_q)"
    "nonempty_weights ai_q"
    by (simp_all add: ai_p_def ai_q_def nonempty_weights_def)
  from crossover_spliced [OF h, of rng_half] obtain C g' where
    C: "crossover ai_p ai_q rng_half = Inr (C, g')"
      "spliced (row_filled_weights ai_p) (row_filled_weights ai_q) (row_filled_weights C)"
      "spliced (hole_height_weights ai_p) (hole_height_weights ai_q) (hole_height_weights C)"
      "spliced (column_diff_weights ai_p) (column_diff_weights ai_q) (column_diff_weights C)"
    by blast
  have "row_filled_weights C = [3, 70] \<and> hole_height_weights C = [1, 2, 30, 40, 50]
        \<and> column_diff_weights C = [1, 2, 3, 40, 50]"
    using C(1)
    by (auto simp: crossover_def rng_half_def ai_p_def ai_q_def randint_def new_TetrisAI_def
        rbind_def rreturn_def)
  with h C show ?thesis by blast
qed

subsection \<open>C5: what mutate reaches\<close>

lemma mutate_loop_frame:
  "mutate_loop rate is ws g = Inr (ws', g')
   \<Longrightarrow> length ws' = length ws \<and> (\<forall>j. j \<notin> set is \<longrightarrow> ws' ! j = ws ! j)"
proof (induction "is" arbitrary: ws g)
  case Nil
  then show ?case by simp
next
  case (Cons i "is")
  obtain u g1 where u: "random g = (u, g1)" by (cases "random g")
  show ?case
  proof (cases "u \<le> rate")
    case True
    with Cons.prems u obtain w g2 where w: "random_weight g1 = Inr (w, g2)" "i < length ws"
        "mutate_loop rate is (ws[i := w]) g2 = Inr (ws', g')"
      by (auto simp: rbind_def split: sum.splits if_splits)
    from Cons.IH[OF w(3)] show ?thesis by auto
  next
    case False
    with Cons.prems u have "mutate_loop rate is ws g1 = Inr (ws', g')" by simp
    from Cons.IH[OF this] show ?thesis by auto
  qed
qed

lemma mutate_keeps_last_row_filled_weight:
  assumes "mutate ai rate g = Inr (ai', g')"
  shows "row_filled_weights ai' ! grid_width ai = row_filled_weights ai ! grid_width ai"
proof -
  from assms obtain rfw g1 hhw g2 cdw where
    r: "mutate_loop rate [0..<grid_width ai] (row_filled_weights ai) g = Inr (rfw, g1)"
    and ai': "ai' = ai\<lparr> row_filled_weights := rfw, hole_height_weights := hhw, column_diff_weights := cdw \<rparr>"
    by (auto simp: mutate_def rbind_def rreturn_def split: sum.splits)
  from mutate_loop_frame[OF r] ai' show ?thesis by simp
qed

lemma random_half: "random (g\<lparr>floats := \<lambda>k. 1 / 2\<rparr>) = (1 / 2, g\<lparr>floats := \<lambda>k. 1 / 2\<rparr>)"
  by (simp add: random_def)

lemma random_weight_half:
  "random_weight (g\<lparr>floats := \<lambda>k. 1 / 2\<rparr>) = Inr (sqrt (2 * ln 2), g\<lparr>floats := \<lambda>k. 1 / 2\<rparr>)"
proof -
  have "ln (1 / 2 :: real) = - ln 2" by (simp add: ln_div)
  then show ?thesis
    by (simp add: random_weight_def random_half)
qed

text \<open>
  C5.  The loop over the row-fill weights runs over \<open>range(grid_width)\<close>, one index short
  of the \<open>grid_width + 1\<close> entries.  With rate \<open>1\<close> on a board of width 1, row-fill weights
  \<open>[3, 7]\<close> and every \<open>random()\<close> equal to \<open>1/2\<close>, \<open>mutate\<close> returns, the first row-fill
  weight is replaced and the last one is still \<open>7\<close>.
\<close>

theorem mutate_rate_one_skips_last_row_filled_weight:
  "\<exists>ai' g'. mutate ai_p 1 rng_half = Inr (ai', g')
      \<and> row_filled_weights ai' = [sqrt (2 * ln 2), 7]"
proof -
  have g: "rng_half = rng_half\<lparr>floats := \<lambda>k. 1 / 2\<rparr>" by (simp add: rng_half_def)
  show ?thesis
    by (subst g)
      (simp add: mutate_def ai_p_def random_half random_weight_half rbind_def rreturn_def
        hole_height_cap_def column_diff_cap_def upt_rec)
qed

text \<open>
  The test is \<open>random() <= mutate_rate\<close>: with rate \<open>0\<close>, a \<open>random()\<close> that returns \<open>0\<close>
  replaces the weight.
\<close>

lemma mutate_rate_zero_first_draw_zero:
  "\<exists>ai' g'. mutate ai_p 0 rng_zero_first = Inr (ai', g')
      \<and> row_filled_weights ai' = [sqrt (2 * ln 2), 7]
      \<and> row_filled_weights ai' \<noteq> row_filled_weights ai_p"
proof -
  have r: "random rng_zero_first = (0, rng_half\<lparr>floats := \<lambda>k. 1 / 2\<rparr>)"
    by (simp add: random_def rng_zero_first_def rng_half_def)
  have "2 * ln (2::real) < 9" using ln_2_less_1 by simp
  then have "sqrt (2 * ln 2) < sqrt 9" by (simp only: real_sqrt_less_iff)
  then have ne: "sqrt (2 * ln 2) \<noteq> 3" by simp
  show ?thesis
    by (simp add: mutate_def ai_p_def r random_half random_weight_half rbind_def rreturn_def
        hole_height_cap_def column_diff_cap_def upt_rec ne)
qed

subsection \<open>Every constructed AI has three non-empty weight lists\<close>

lemma append_random_weights_length:
  "append_random_weights n ws g = Inr (ws', g') \<Longrightarrow> length ws' = length ws + n"
proof (induction n arbitrary: ws g)
  case 0
  then show ?case by simp
next
  case (Suc n)
  then obtain w g1 where "append_random_weights n (ws @ [w]) g1 = Inr (ws', g')"
    by (auto simp: rbind_def split: sum.splits)
  from Suc.IH[OF this] show ?case by simp
qed

lemma new_TetrisAI_establishes_nonempty:
  assumes "new_TetrisAI W H rfw hhw cdw g = Inr (ai, g')"
  shows "nonempty_weights ai"
proof -
  from assms obtain r g1 h g2 c g3 where
    r: "(if length rfw = 0 then append_random_weights (W + 1) rfw else rreturn rfw) g = Inr (r, g1)"
    and h: "(if length hhw = 0 then append_random_weights (nat hole_height_cap) hhw else rreturn hhw) g1 = Inr (h, g2)"
    and c: "(if length cdw = 0 then append_random_weights (nat column_diff_cap) cdw else rreturn cdw) g2 = Inr (c, g3)"
    and ai: "ai = \<lparr> grid_width = W, grid_height = H, row_filled_weights = r,
                 hole_height_weights = h, column_diff_weights = c \<rparr>"
    by (auto simp: new_TetrisAI_def rbind_def rreturn_def split: sum.splits)
  have "r \<noteq> []" using r append_random_weights_length[of "W + 1" rfw g r g1]
    by (auto simp: rreturn_def simp del: append_random_weights.simps split: if_splits)
  moreover have "h \<noteq> []" using h append_random_weights_length[of "nat hole_height_cap" hhw g1 h g2]
    by (auto simp: rreturn_def hole_height_cap_def simp del: append_random_weights.simps split: if_splits)
  moreover have "c \<noteq> []" using c append_random_weights_length[of "nat column_diff_cap" cdw g2 c g3]
    by (auto simp: rreturn_def column_diff_cap_def simp del: append_random_weights.simps split: if_splits)
  ultimately show ?thesis using ai by (simp add: nonempty_weights_def)
qed

lemma mutate_preserves_nonempty:
  assumes "mutate ai rate g = Inr (ai', g')" "nonempty_weights ai"
  shows "nonempty_weights ai'"
proof -
  from assms(1) obtain rfw g1 hhw g2 cdw g3 where
    r: "mutate_loop rate [0..<grid_width ai] (row_filled_weights ai) g = Inr (rfw, g1)"
    and h: "mutate_loop rate [0..<nat hole_height_cap] (hole_height_weights ai) g1 = Inr (hhw, g2)"
    and c: "mutate_loop rate [0..<nat column_diff_cap] (column_diff_weights ai) g2 = Inr (cdw, g3)"
    and ai': "ai' = ai\<lparr> row_filled_weights := rfw, hole_height_weights := hhw, column_diff_weights := cdw \<rparr>"
    by (auto simp: mutate_def rbind_def rreturn_def split: sum.splits)
  from mutate_loop_frame[OF r] mutate_loop_frame[OF h] mutate_loop_frame[OF c] assms(2) ai'
  show ?thesis by (auto simp: nonempty_weights_def)
qed

subsection \<open>C3: the lock clears the full rows\<close>

lemma py_set2_in:
  "x < length gr \<Longrightarrow> y < length (gr ! x)
   \<Longrightarrow> py_set2 gr (int x) (int y) v = Inr (gr[x := (gr ! x)[y := v]])"
  by (simp add: py_set2_def py_set_def py_get_def)

lemma assign_row_cols:
  assumes wf: "length gr = W" "\<forall>col \<in> set gr. length col = H" and y: "y < H"
    and rhs: "\<And>gr' x. x < W \<Longrightarrow> length gr' = W \<Longrightarrow> gr' ! x = gr ! x
                 \<Longrightarrow> rhs gr' (int x) = Inr (f (gr ! x))"
    and k: "k \<le> W"
  shows "assign_row (map int [k..<W]) (int y) rhs
           (take k (map (\<lambda>col. col[y := f col]) gr) @ drop k gr)
         = Inr (map (\<lambda>col. col[y := f col]) gr)"
  using k
proof (induction k rule: inc_induct)
  case base
  then show ?case using wf by simp
next
  case (step n)
  let ?G = "map (\<lambda>col. col[y := f col]) gr"
  let ?g = "take n ?G @ drop n gr"
  have len: "length ?g = W" using wf step.hyps by simp
  have nth: "?g ! n = gr ! n" using wf step.hyps by (simp add: nth_append)
  have r: "rhs ?g (int n) = Inr (f (gr ! n))"
    using rhs[OF step.hyps(2) len nth] .
  have ly: "y < length (?g ! n)" using nth wf step.hyps y by simp
  have "n < length ?g" using len step.hyps by simp
  from py_set2_in[OF this ly, of "f (gr ! n)"]
  have s: "py_set2 ?g (int n) (int y) (f (gr ! n)) = Inr (?g[n := (gr ! n)[y := f (gr ! n)]])"
    by (simp add: nth)
  have upd: "?g[n := (gr ! n)[y := f (gr ! n)]] = take (Suc n) ?G @ drop (Suc n) gr"
    using wf step.hyps
    by (simp add: list_update_append take_Suc_conv_app_nth upd_conv_take_nth_drop Cons_nth_drop_Suc drop_Suc)
  have "[n..<W] = n # [Suc n..<W]" using step.hyps by (simp add: upt_rec)
  then show ?case using r s upd step.IH by (simp add: err_bind_def)
qed

lemma assign_row_all:
  assumes "wfg W H gr" "y < H"
    and "\<And>gr' x. x < W \<Longrightarrow> length gr' = W \<Longrightarrow> gr' ! x = gr ! x
                 \<Longrightarrow> rhs gr' (int x) = Inr (f (gr ! x))"
  shows "assign_row (py_range W) (int y) rhs gr = Inr (map (\<lambda>col. col[y := f col]) gr)"
  using assign_row_cols[of gr W H y rhs f 0] assms
  by (simp add: wfg_def py_range_def)

lemma wfg_map: "wfg W H gr \<Longrightarrow> (\<And>col. length col = H \<Longrightarrow> length (f col) = H) \<Longrightarrow> wfg W H (map f gr)"
  by (auto simp: wfg_def)



lemma length_shifted: "j < length col \<Longrightarrow> length (shifted j col) = length col"
  by (auto simp: shifted_def min_def)

lemma shifted_0: "col \<noteq> [] \<Longrightarrow> shifted 0 col = col"
  by (cases col) (auto simp: shifted_def)

lemma shifted_Suc:
  "Suc j < length col \<Longrightarrow> shifted j (col[Suc j := col ! j]) = shifted (Suc j) col"
proof -
  assume a: "Suc j < length col"
  have 1: "take 1 (col[Suc j := col ! j]) = take 1 col" by simp
  have 2: "take j (col[Suc j := col ! j]) = take j col" by simp
  have 3: "drop (Suc j) (col[Suc j := col ! j]) = col ! j # drop (Suc (Suc j)) col"
    using a by (simp add: drop_update_cancel upd_conv_take_nth_drop)
  have 4: "take (Suc j) col = take j col @ [col ! j]"
    using a by (simp add: take_Suc_conv_app_nth)
  show ?thesis unfolding shifted_def 1 2 3 4 by simp
qed

lemma py_range_down_Suc: "py_range_down (int (Suc j)) = int (Suc j) # py_range_down (int j)"
proof -
  have "nat (int (Suc j)) = Suc j" by simp
  then have "py_range_down (int (Suc j)) = map (\<lambda>k. int (Suc j) - int k) [0..<Suc j]"
    unfolding py_range_down_def by (simp only:)
  also have "\<dots> = int (Suc j) # map (\<lambda>k. int (Suc j) - int (Suc k)) [0..<j]"
    by (simp only: map_upt_Suc) simp
  also have "map (\<lambda>k. int (Suc j) - int (Suc k)) [0..<j] = py_range_down (int j)"
    unfolding py_range_down_def by simp
  finally show ?thesis .
qed

lemma py_range_down_0: "py_range_down 0 = []"
  by (simp add: py_range_down_def)

lemma shift_loop_shifted:
  assumes "wfg W H gr" "j < H"
  shows "shift_loop W (py_range_down (int j)) gr = Inr (map (shifted j) gr)"
  using assms
proof (induction j arbitrary: gr)
  case 0
  then have "map (shifted 0) gr = gr"
    by (auto simp: wfg_def intro!: map_idI shifted_0)
  then show ?case by (simp add: py_range_down_0)
next
  case (Suc j)
  let ?g1 = "map (\<lambda>col. col[Suc j := col ! j]) gr"
  have "assign_row (py_range W) (int (Suc j)) (\<lambda>gr x. py_get2 gr x (int (Suc j) - 1)) gr = Inr ?g1"
  proof (rule assign_row_all[OF Suc.prems])
    fix gr' :: grid and x
    assume "x < W" "length gr' = W" "gr' ! x = gr ! x"
    then show "py_get2 gr' (int x) (int (Suc j) - 1) = Inr (gr ! x ! j)"
      using Suc.prems py_get2_nat[of x gr' j] by (auto simp: wfg_def)
  qed
  moreover have "wfg W H ?g1" using Suc.prems(1) by (rule wfg_map) simp
  moreover have "map (shifted j) ?g1 = map (shifted (Suc j)) gr"
    using Suc.prems by (auto simp: wfg_def shifted_Suc)
  ultimately show ?case using Suc.IH[of ?g1] Suc.prems(2)
    by (simp add: py_range_down_Suc err_bind_def del: of_nat_Suc)
qed



lemma shift_and_zero:
  assumes "wfg W H gr" "j < H"
  shows "err_bind (shift_loop W (py_range_down (int j)) gr)
           (assign_row (py_range W) 0 (\<lambda>gr x. Inr 0)) = Inr (map (cleared_col j) gr)"
proof -
  have wf': "wfg W H (map (shifted j) gr)"
    using assms by (intro wfg_map) (auto simp: length_shifted)
  have "assign_row (py_range W) (int 0) (\<lambda>gr x. Inr 0) (map (shifted j) gr)
        = Inr (map (\<lambda>col. col[0 := 0]) (map (shifted j) gr))"
    using assms by (intro assign_row_all[OF wf']) auto
  moreover have "map (\<lambda>col. col[0 := 0]) (map (shifted j) gr) = map (cleared_col j) gr"
  proof -
    have "(shifted j col)[0 := 0] = cleared_col j col" if "length col = H" for col
      using that assms(2) by (cases col) (auto simp: shifted_def cleared_col_def)
    then show ?thesis using assms(1) by (auto simp: wfg_def)
  qed
  ultimately show ?thesis using shift_loop_shifted[OF assms] by (simp add: err_bind_def)
qed

lemma length_rows_of [simp]: "length (rows_of W H gr) = H"
  by (simp add: rows_of_def)

lemma rows_of_nth: "y < H \<Longrightarrow> rows_of W H gr ! y = map (\<lambda>x. gr ! x ! y) [0..<W]"
  by (simp add: rows_of_def)

lemma full_row_nth:
  "y < H \<Longrightarrow> full_row (rows_of W H gr ! y) \<longleftrightarrow> (\<forall>x < W. gr ! x ! y \<noteq> 0)"
  by (auto simp: rows_of_nth full_row_def list_all_iff)

lemma zero_row_not_full: "0 < W \<Longrightarrow> \<not> full_row (replicate W 0)"
  by (cases W) (auto simp: full_row_def)

lemma cleared_col_nth:
  assumes "length col = H" "j < H" "y < H"
  shows "cleared_col j col ! y = (if y = 0 then 0 else if y \<le> j then col ! (y - 1) else col ! y)"
proof (cases y)
  case 0
  then show ?thesis by (simp add: cleared_col_def)
next
  case (Suc z)
  then show ?thesis using assms
    by (auto simp: cleared_col_def nth_append min_def)
qed

lemma length_cleared_col: "j < length col \<Longrightarrow> length (cleared_col j col) = length col"
  by (auto simp: cleared_col_def)

lemma rows_of_cleared:
  assumes "wfg W H gr" "j < H"
  shows "rows_of W H (map (cleared_col j) gr)
         = replicate W 0 # take j (rows_of W H gr) @ drop (Suc j) (rows_of W H gr)"
proof (rule nth_equalityI)
  show "length (rows_of W H (map (cleared_col j) gr))
        = length (replicate W 0 # take j (rows_of W H gr) @ drop (Suc j) (rows_of W H gr))"
    using assms(2) by (simp add: min_def)
next
  fix y assume "y < length (rows_of W H (map (cleared_col j) gr))"
  then have y: "y < H" by simp
  have cell: "map (cleared_col j) gr ! x ! y
      = (if y = 0 then 0 else if y \<le> j then gr ! x ! (y - 1) else gr ! x ! y)" if "x < W" for x
    using that assms y cleared_col_nth[of "gr ! x" H j y] by (simp add: wfg_def)
  have lhs: "rows_of W H (map (cleared_col j) gr) ! y
      = map (\<lambda>x. if y = 0 then 0 else if y \<le> j then gr ! x ! (y - 1) else gr ! x ! y) [0..<W]"
    using y cell by (simp add: rows_of_nth)
  show "rows_of W H (map (cleared_col j) gr) ! y
        = (replicate W 0 # take j (rows_of W H gr) @ drop (Suc j) (rows_of W H gr)) ! y"
  proof (cases y)
    case 0
    then show ?thesis unfolding lhs by (simp add: map_replicate_const)
  next
    case (Suc z)
    show ?thesis
    proof (cases "y \<le> j")
      case True
      then show ?thesis unfolding lhs using Suc y assms(2)
        by (simp add: nth_append rows_of_nth)
    next
      case False
      then show ?thesis unfolding lhs using Suc y assms(2)
        by (simp add: nth_append rows_of_nth min_def)
    qed
  qed
qed

lemma without_full_cleared:
  assumes "j < length rows" "full_row (rows ! j)" "0 < W"
  shows "without_full W (replicate W 0 # take j rows @ drop (Suc j) rows) = without_full W rows"
    and "count_full rows = Suc (count_full (replicate W 0 # take j rows @ drop (Suc j) rows))"
proof -
  have split: "rows = take j rows @ rows ! j # drop (Suc j) rows"
    using assms(1) by (simp add: id_take_nth_drop[symmetric])
  have z: "\<not> full_row (replicate W 0)" using assms(3) by (rule zero_row_not_full)
  have c: "count_full rows = Suc (count_full (take j rows) + count_full (drop (Suc j) rows))"
    by (subst split) (simp add: count_full_def assms(2))
  have c': "count_full (replicate W 0 # take j rows @ drop (Suc j) rows)
      = count_full (take j rows) + count_full (drop (Suc j) rows)"
    using z by (simp add: count_full_def)
  show "count_full rows = Suc (count_full (replicate W 0 # take j rows @ drop (Suc j) rows))"
    using c c' by simp
  have f: "filter (\<lambda>row. \<not> full_row row) rows
      = filter (\<lambda>row. \<not> full_row row) (take j rows) @ filter (\<lambda>row. \<not> full_row row) (drop (Suc j) rows)"
    by (subst split) (simp add: assms(2))
  show "without_full W (replicate W 0 # take j rows @ drop (Suc j) rows) = without_full W rows"
    unfolding without_full_def c c' using z
    by (simp add: f replicate_app_Cons_same)
qed

lemma without_full_none:
  "list_all (\<lambda>row. \<not> full_row row) rows \<Longrightarrow> without_full W rows = rows \<and> count_full rows = 0"
  by (simp add: without_full_def count_full_def list_all_iff)

lemma wfg_nth: "wfg W H gr \<Longrightarrow> x < W \<Longrightarrow> length (gr ! x) = H"
  by (simp add: wfg_def)

lemma wfg_length: "wfg W H gr \<Longrightarrow> length gr = W"
  by (simp add: wfg_def)

lemma line_cleared_loop_in:
  assumes "wfg W H gr" "0 \<le> cy" "cy < int H" "\<forall>x \<in> set xs. 0 \<le> x \<and> x < int W"
  shows "line_cleared_loop gr cy xs = Inr (\<forall>x \<in> set xs. gr ! nat x ! nat cy \<noteq> 0)"
  using assms(4)
proof (induction xs)
  case Nil
  then show ?case by simp
next
  case (Cons x xs)
  have "nat x < W" using Cons.prems by auto
  then have "py_get2 gr x cy = Inr (gr ! nat x ! nat cy)"
    using assms(2,3) Cons.prems wfg_nth[OF assms(1), of "nat x"] wfg_length[OF assms(1)]
    by (simp add: py_get2_def py_get_in)
  then show ?case using Cons by (simp add: err_bind_def)
qed

lemma line_cleared_loop_row:
  assumes "wfg W H gr" "0 \<le> cy" "cy < int H"
  shows "line_cleared_loop gr cy (py_range W) = Inr (full_row (rows_of W H gr ! nat cy))"
proof -
  have "(\<forall>x \<in> set (py_range W). gr ! nat x ! nat cy \<noteq> 0) \<longleftrightarrow> (\<forall>x < W. gr ! x ! nat cy \<noteq> 0)"
    by (auto simp: py_range_def)
  then show ?thesis
    using line_cleared_loop_in[OF assms, of "py_range W"] assms(2,3)
    by (simp add: set_py_range full_row_nth)
qed

lemma py_get_wrap: "i < 0 \<Longrightarrow> - int (length xs) \<le> i \<Longrightarrow> py_get xs i = Inr (xs ! nat (int (length xs) + i))"
  by (simp add: py_get_def)

lemma line_cleared_loop_wrap:
  assumes "wfg W H gr" "cy < 0" "- int H \<le> cy" "\<forall>x \<in> set xs. 0 \<le> x \<and> x < int W"
  shows "line_cleared_loop gr cy xs = Inr (\<forall>x \<in> set xs. gr ! nat x ! nat (int H + cy) \<noteq> 0)"
  using assms(4)
proof (induction xs)
  case Nil
  then show ?case by simp
next
  case (Cons x xs)
  have "nat x < W" using Cons.prems by auto
  then have "py_get2 gr x cy = Inr (gr ! nat x ! nat (int H + cy))"
    using assms(2,3) Cons.prems wfg_nth[OF assms(1), of "nat x"] wfg_length[OF assms(1)]
    by (simp add: py_get2_def py_get_in py_get_wrap err_bind_def)
  then show ?case using Cons by (simp add: err_bind_def)
qed

lemma line_cleared_loop_negative:
  assumes "wfg W H gr" "cy < 0" "0 < W" "line_cleared_loop gr cy (py_range W) = Inr True"
  shows "- int H \<le> cy \<and> full_row (rows_of W H gr ! nat (int H + cy))"
proof (cases "- int H \<le> cy")
  case True
  have "(\<forall>x \<in> set (py_range W). gr ! nat x ! nat (int H + cy) \<noteq> 0)
        \<longleftrightarrow> (\<forall>x < W. gr ! x ! nat (int H + cy) \<noteq> 0)"
    by (auto simp: py_range_def)
  moreover have "nat (int H + cy) < H" using True assms(2) by linarith
  ultimately show ?thesis
    using line_cleared_loop_wrap[OF assms(1,2) True, of "py_range W"] assms(4) True
    by (simp add: set_py_range full_row_nth)
next
  case False
  obtain W' where W': "W = Suc W'" using assms(3) by (cases W) auto
  have "py_range W = 0 # map int [1..<W]"
    unfolding py_range_def W' by (simp add: upt_rec[of 0])
  moreover have "py_get2 gr 0 cy = Inl IndexError"
    using assms(1,2,3) False by (auto simp: py_get2_def py_get_def wfg_def err_bind_def)
  ultimately show ?thesis using assms(4) by (simp add: err_bind_def)
qed

lemma clear_loop_rows:
  assumes W: "0 < W"
  shows "wfg W H gr
    \<Longrightarrow> (\<And>y. y < H \<Longrightarrow> full_row (rows_of W H gr ! y) \<Longrightarrow> cy - int n < int y \<and> int y \<le> cy)
    \<Longrightarrow> clear_loop W H n (gr, lines, cy) = Inr (gr2, lines2, cy2)
    \<Longrightarrow> wfg W H gr2 \<and> rows_of W H gr2 = without_full W (rows_of W H gr)
        \<and> lines2 = lines + int (count_full (rows_of W H gr))"
proof (induction n arbitrary: gr lines cy)
  case 0
  have "list_all (\<lambda>row. \<not> full_row row) (rows_of W H gr)"
    unfolding list_all_length using "0.prems"(2) by fastforce
  from without_full_none[OF this, of W] "0.prems" show ?case by simp
next
  case (Suc n)
  note inv = Suc.prems(2)
  show ?case
  proof (cases "cy \<ge> int H")
    case True
    with Suc.prems(3) have res: "clear_loop W H n (gr, lines, cy - 1) = Inr (gr2, lines2, cy2)"
      by simp
    show ?thesis
    proof (rule Suc.IH[OF Suc.prems(1) _ res])
      fix y assume "y < H" "full_row (rows_of W H gr ! y)"
      with inv[of y] True show "cy - 1 - int n < int y \<and> int y \<le> cy - 1" by auto
    qed
  next
    case below: False
    from Suc.prems(3) below obtain b where b: "line_cleared_loop gr cy (py_range W) = Inr b"
      by (cases "line_cleared_loop gr cy (py_range W)") (auto simp: err_bind_def)
    show ?thesis
    proof (cases b)
      case False
      with Suc.prems(3) below b
      have res: "clear_loop W H n (gr, lines, cy - 1) = Inr (gr2, lines2, cy2)"
        by (simp add: err_bind_def)
      show ?thesis
      proof (rule Suc.IH[OF Suc.prems(1) _ res])
        fix y assume y: "y < H" "full_row (rows_of W H gr ! y)"
        from inv[OF y] have r: "cy - int (Suc n) < int y" "int y \<le> cy" by auto
        have "int y \<noteq> cy"
        proof
          assume "int y = cy"
          then have "0 \<le> cy" "cy < int H" "nat cy = y" using y(1) by auto
          with line_cleared_loop_row[OF Suc.prems(1), of cy] b False y(2) show False by simp
        qed
        with r show "cy - 1 - int n < int y \<and> int y \<le> cy - 1" by auto
      qed
    next
      case True
      have cy0: "0 \<le> cy"
      proof (rule ccontr)
        assume "\<not> 0 \<le> cy"
        then have neg: "cy < 0" by simp
        from line_cleared_loop_negative[OF Suc.prems(1) neg W] b True
        have "- int H \<le> cy" "full_row (rows_of W H gr ! nat (int H + cy))" by auto
        moreover have "nat (int H + cy) < H" using neg calculation(1) by linarith
        ultimately show False using inv[of "nat (int H + cy)"] neg by auto
      qed
      define j where "j = nat cy"
      have j: "j < H" "cy = int j" using cy0 below by (auto simp: j_def)
      have full: "full_row (rows_of W H gr ! j)"
        using line_cleared_loop_row[OF Suc.prems(1) cy0, of ] below b True j by simp
      let ?g = "map (cleared_col j) gr"
      from shift_and_zero[OF Suc.prems(1) j(1)]
      have sz: "err_bind (shift_loop W (py_range_down cy) gr)
           (assign_row (py_range W) 0 (\<lambda>gr x. Inr 0)) = Inr ?g"
        by (simp add: j(2))
      have res: "clear_loop W H n (?g, lines + 1, cy) = Inr (gr2, lines2, cy2)"
      proof -
        from sz obtain g1 where g1: "shift_loop W (py_range_down cy) gr = Inr g1"
          "assign_row (py_range W) 0 (\<lambda>gr x. Inr 0) g1 = Inr ?g"
          by (cases "shift_loop W (py_range_down cy) gr") (auto simp: err_bind_def)
        with Suc.prems(3) below b True show ?thesis by (simp add: err_bind_def)
      qed
      have wf': "wfg W H ?g"
        using Suc.prems(1) by (rule wfg_map) (simp add: length_cleared_col j(1))
      have rows': "rows_of W H ?g
         = replicate W 0 # take j (rows_of W H gr) @ drop (Suc j) (rows_of W H gr)"
        using rows_of_cleared[OF Suc.prems(1) j(1)] .
      have inv': "cy - int n < int y \<and> int y \<le> cy" if y: "y < H" "full_row (rows_of W H ?g ! y)" for y
      proof (cases y)
        case 0
        with y(2) rows' zero_row_not_full[OF W] show ?thesis by simp
      next
        case (Suc z)
        show ?thesis
        proof (cases "y \<le> j")
          case True
          then have "rows_of W H ?g ! y = rows_of W H gr ! z"
            unfolding rows' using Suc j(1) by (simp add: nth_append)
          with y(2) inv[of z] Suc y(1) True j(2) show ?thesis by auto
        next
          case False
          then have "rows_of W H ?g ! y = rows_of W H gr ! y"
            unfolding rows' using Suc j(1) y(1) by (simp add: nth_append min_def)
          with y(2) inv[of y] y(1) False j(2) show ?thesis by auto
        qed
      qed
      from Suc.IH[OF wf' inv' res]
      have IH: "wfg W H gr2" "rows_of W H gr2 = without_full W (rows_of W H ?g)"
        "lines2 = lines + 1 + int (count_full (rows_of W H ?g))" by auto
      have "j < length (rows_of W H gr)" using j(1) by simp
      from without_full_cleared[OF this full W] IH rows'
      show ?thesis by simp
    qed
  qed
qed

lemma wf_grid_wfg: "wf_grid d gr \<longleftrightarrow> wfg (grid_width d) (grid_height d) gr"
  by (simp add: wf_grid_def wfg_def)

lemma write_loop_rows:
  assumes "\<forall>c \<in> set cs. 0 \<le> snd c \<and> snd c < int n"
  shows "wfg W H gr \<Longrightarrow> write_loop W H t cs gr = Inr gr'
    \<Longrightarrow> wfg W H gr'
       \<and> (\<forall>y < H. int y < y_pos t \<or> y_pos t + int n \<le> int y
                   \<longrightarrow> rows_of W H gr' ! y = rows_of W H gr ! y)"
  using assms
proof (induction cs arbitrary: gr)
  case Nil
  then show ?case by simp
next
  case (Cons c cs)
  obtain cx cy where c: "c = (cx, cy)" by (cases c)
  from Cons.prems(2) c obtain b where b: "py_get2 (block_data t) cx cy = Inr b"
    by (cases "py_get2 (block_data t) cx cy") (auto simp: err_bind_def)
  let ?gx = "cx + x_pos t" and ?gy = "cy + y_pos t"
  have rest: "\<forall>c \<in> set cs. 0 \<le> snd c \<and> snd c < int n" using Cons.prems(3) by simp
  show ?case
  proof (cases "b \<and> \<not> (?gx < 0 \<or> ?gx \<ge> int W \<or> ?gy < 0 \<or> ?gy \<ge> int H)")
    case False
    with Cons.prems(2) c b have "write_loop W H t cs gr = Inr gr'"
      by (auto simp: err_bind_def Let_def split: if_splits)
    from Cons.IH[OF Cons.prems(1) this rest] show ?thesis .
  next
    case True
    then have inb: "0 \<le> ?gx" "?gx < int W" "0 \<le> ?gy" "?gy < int H" by auto
    define x where "x = nat ?gx"
    define y where "y = nat ?gy"
    have xy: "x < W" "y < H" "?gx = int x" "?gy = int y" using inb by (auto simp: x_def y_def)
    let ?g1 = "gr[x := (gr ! x)[y := tmino_id t]]"
    have "py_set2 gr (int x) (int y) (tmino_id t) = Inr ?g1"
      using xy wfg_nth[OF Cons.prems(1) xy(1)] wfg_length[OF Cons.prems(1)]
      by (intro py_set2_in) auto
    with Cons.prems(2) c b True xy have res: "write_loop W H t cs ?g1 = Inr gr'"
      by (auto simp: err_bind_def Let_def)
    have wf1: "wfg W H ?g1"
      using Cons.prems(1) xy(1) unfolding wfg_def
      by (auto simp: set_conv_nth nth_list_update)
    from Cons.IH[OF wf1 res rest]
    have IH: "wfg W H gr'" "\<forall>y < H. int y < y_pos t \<or> y_pos t + int n \<le> int y
                   \<longrightarrow> rows_of W H gr' ! y = rows_of W H ?g1 ! y" by auto
    have cyr: "0 \<le> cy" "cy < int n" using Cons.prems(3) c by auto
    have "rows_of W H ?g1 ! y' = rows_of W H gr ! y'"
      if "y' < H" "int y' < y_pos t \<or> y_pos t + int n \<le> int y'" for y'
    proof -
      have "y' \<noteq> y" using that(2) xy(4) cyr by auto
      then have "?g1 ! x' ! y' = gr ! x' ! y'" if "x' < W" for x'
        using that wfg_length[OF Cons.prems(1)] by (cases "x' = x") auto
      then show ?thesis using that(1) by (simp add: rows_of_nth)
    qed
    with IH show ?thesis by auto
  qed
qed

lemma set_cells: "set (cells n) = {(x, y). 0 \<le> x \<and> x < int n \<and> 0 \<le> y \<and> y < int n}"
  by (auto simp: cells_def set_py_range)

lemma lock_piece_rows:
  assumes wf: "wf_grid self (game_grid self)" and W: "0 < grid_width self"
    and inv: "no_full_row (grid_width self) (grid_height self) (game_grid self)"
    and res: "lock_piece self t = Inr (gr2, lines2)"
  shows "\<exists>written. write_loop (grid_width self) (grid_height self) t (cells (tmino_size t)) (game_grid self)
             = Inr written
          \<and> wf_grid self gr2
          \<and> rows_of (grid_width self) (grid_height self) gr2
              = without_full (grid_width self) (rows_of (grid_width self) (grid_height self) written)
          \<and> lines2 = lines_cleared self
              + int (count_full (rows_of (grid_width self) (grid_height self) written))"
proof -
  let ?W = "grid_width self" and ?H = "grid_height self"
  from res obtain written cy2 where
    w: "write_loop ?W ?H t (cells (tmino_size t)) (game_grid self) = Inr written"
    and c: "clear_loop ?W ?H (tmino_size t) (written, lines_cleared self, y_pos t + int (tmino_size t) - 1)
            = Inr (gr2, lines2, cy2)"
    by (auto simp: lock_piece_def err_bind_def split: sum.splits)
  have wf0: "wfg ?W ?H (game_grid self)" using wf by (simp add: wf_grid_wfg)
  have "\<forall>c \<in> set (cells (tmino_size t)). 0 \<le> snd c \<and> snd c < int (tmino_size t)"
    by (auto simp: set_cells)
  from write_loop_rows[OF this wf0 w]
  have wr: "wfg ?W ?H written"
    "\<forall>y < ?H. int y < y_pos t \<or> y_pos t + int (tmino_size t) \<le> int y
        \<longrightarrow> rows_of ?W ?H written ! y = rows_of ?W ?H (game_grid self) ! y" by auto
  have span: "y_pos t + int (tmino_size t) - 1 - int (tmino_size t) < int y
              \<and> int y \<le> y_pos t + int (tmino_size t) - 1"
    if y: "y < ?H" "full_row (rows_of ?W ?H written ! y)" for y
  proof (rule ccontr)
    assume "\<not> ?thesis"
    then have "int y < y_pos t \<or> y_pos t + int (tmino_size t) \<le> int y" by auto
    with wr(2) y(1) have "rows_of ?W ?H written ! y = rows_of ?W ?H (game_grid self) ! y" by blast
    moreover have "\<not> full_row (rows_of ?W ?H (game_grid self) ! y)"
      using inv y(1) by (simp add: no_full_row_def list_all_length)
    ultimately show False using y(2) by simp
  qed
  from clear_loop_rows[OF W wr(1) span c] w show ?thesis
    by (auto simp: wf_grid_wfg)
qed

text \<open>
  C3.  In a game in play (the grid has \<open>grid_width > 0\<close> columns of \<open>grid_height\<close> cells
  and holds no full row before the lock), when \<open>place_tetromino\<close> returns: with
  \<open>written\<close> the grid after the in-bounds cells of the piece were written, the rows of the
  new grid are, from the top, one row of zeros for each full row of \<open>written\<close>, followed by
  the rows of \<open>written\<close> that are not full, in their order; and \<open>lines_cleared\<close> has grown
  by the number of full rows of \<open>written\<close>.
\<close>

theorem place_tetromino_clears_full_rows:
  assumes "wf_grid self (game_grid self)" and "0 < grid_width self"
    and "no_full_row (grid_width self) (grid_height self) (game_grid self)"
    and "current_tmino self = Some t"
    and "place_tetromino geo self g = Inr (self', g')"
  shows "\<exists>written. write_loop (grid_width self) (grid_height self) t (cells (tmino_size t)) (game_grid self)
             = Inr written
          \<and> rows_of (grid_width self) (grid_height self) (game_grid self')
              = without_full (grid_width self) (rows_of (grid_width self) (grid_height self) written)
          \<and> lines_cleared self' = lines_cleared self
              + int (count_full (rows_of (grid_width self) (grid_height self) written))"
proof -
  from assms(4,5) obtain gr2 lines2 where
    l: "lock_piece self t = Inr (gr2, lines2)" and "game_grid self' = gr2" "lines_cleared self' = lines2"
    by (auto simp: place_tetromino_def rbind_def split: sum.splits prod.splits if_splits)
  with lock_piece_rows[OF assms(1-3) l] show ?thesis by auto
qed

theorem place_tetromino_clears_full_rows_witness:
  "wf_grid game_0 (game_grid game_0) \<and> 0 < grid_width game_0
   \<and> no_full_row (grid_width game_0) (grid_height game_0) (game_grid game_0)
   \<and> current_tmino game_0 = Some (piece_O\<lparr>x_pos := 2, y_pos := 2\<rparr>)
   \<and> (\<exists>self' g'. place_tetromino geo_O game_0 rng_half = Inr (self', g')
        \<and> game_grid self' = [[0, 0, 0, 0], [0, 0, 0, 0], [0, 0, 0, 1], [0, 0, 0, 1]]
        \<and> lines_cleared self' = 1
        \<and> rows_of 4 4 (game_grid self')
            = without_full 4 (rows_of 4 4 [[0, 0, 0, 1], [0, 0, 0, 1], [0, 0, 1, 1], [0, 0, 1, 1]])
        \<and> lines_cleared self' = lines_cleared game_0
            + int (count_full (rows_of 4 4 [[0, 0, 0, 1], [0, 0, 0, 1], [0, 0, 1, 1], [0, 0, 1, 1]])))"
proof -
  have a: "wf_grid game_0 (game_grid game_0)" by (simp add: wf_grid_def game_0_def)
  have b: "0 < grid_width game_0" by (simp add: game_0_def)
  have c: "no_full_row (grid_width game_0) (grid_height game_0) (game_grid game_0)"
    by code_simp
  have d: "current_tmino game_0 = Some (piece_O\<lparr>x_pos := 2, y_pos := 2\<rparr>)" by (simp add: game_0_def)
  have wd: "write_loop (grid_width game_0) (grid_height game_0) (piece_O\<lparr>x_pos := 2, y_pos := 2\<rparr>)
     (cells (tmino_size (piece_O\<lparr>x_pos := 2, y_pos := 2\<rparr>))) (game_grid game_0)
     = Inr [[0, 0, 0, 1], [0, 0, 0, 1], [0, 0, 1, 1], [0, 0, 1, 1]]"
    by code_simp
  have "map_sum id (\<lambda>(s, g). (game_grid s, lines_cleared s)) (place_tetromino geo_O game_0 rng_half)
      = Inr ([[0, 0, 0, 0], [0, 0, 0, 0], [0, 0, 0, 1], [0, 0, 0, 1]], 1)"
    by code_simp
  then obtain self' g' where e: "place_tetromino geo_O game_0 rng_half = Inr (self', g')"
    "game_grid self' = [[0, 0, 0, 0], [0, 0, 0, 0], [0, 0, 0, 1], [0, 0, 0, 1]]" "lines_cleared self' = 1"
    by (cases "place_tetromino geo_O game_0 rng_half") auto
  from place_tetromino_clears_full_rows [OF a b c d e(1)] wd e b show ?thesis
    using a c d by (auto simp: game_0_def)
qed

text \<open>The lock re-establishes what it assumes, and a new game starts with it.\<close>

lemma without_full_no_full:
  "0 < W \<Longrightarrow> list_all (\<lambda>row. \<not> full_row row) (without_full W rows)"
  by (auto simp: without_full_def list_all_iff zero_row_not_full)

lemma place_tetromino_invariant:
  assumes "wf_grid self (game_grid self)" and "0 < grid_width self"
    and "no_full_row (grid_width self) (grid_height self) (game_grid self)"
    and "place_tetromino geo self g = Inr (self', g')"
  shows "grid_width self' = grid_width self \<and> grid_height self' = grid_height self
         \<and> wf_grid self' (game_grid self')
         \<and> no_full_row (grid_width self') (grid_height self') (game_grid self')"
proof -
  from assms(4) obtain t gr2 lines2 where
    l: "lock_piece self t = Inr (gr2, lines2)" and s: "game_grid self' = gr2"
      "grid_width self' = grid_width self" "grid_height self' = grid_height self"
    by (auto simp: place_tetromino_def rbind_def split: sum.splits prod.splits if_splits option.splits)
  from lock_piece_rows[OF assms(1-3) l] obtain written where
    "wf_grid self gr2" "rows_of (grid_width self) (grid_height self) gr2
       = without_full (grid_width self) (rows_of (grid_width self) (grid_height self) written)"
    by auto
  with s without_full_no_full[OF assms(2)] show ?thesis
    by (simp add: no_full_row_def wf_grid_def)
qed

lemma empty_grid_no_full_row: "0 < W \<Longrightarrow> no_full_row W H (empty_grid W H)"
  by (auto simp: no_full_row_def list_all_iff rows_of_def empty_grid_def full_row_def)

subsection \<open>C4: the elitist half of the next generation\<close>




lemma length_fitness_scores [simp]: "length (fitness_scores insts) = length insts"
  by (simp add: fitness_scores_def)








lemma randint_later:
  assumes "a \<le> b"
  shows "\<exists>g'. randint a b g = Inr (a + int (ints g 0) mod (b - a + 1), g') \<and> rng_later g g'
           \<and> ints g' = (\<lambda>k. ints g (Suc k))"
proof -
  let ?g' = "g\<lparr>ints := \<lambda>k. ints g (Suc k)\<rparr>"
  have "floats ?g' = (\<lambda>k. floats g (k + 0)) \<and> ints ?g' = (\<lambda>k. ints g (k + 1))" by simp
  then have "rng_later g ?g'" unfolding rng_later_def by blast
  then show ?thesis using assms by (simp add: randint_def)
qed














lemma new_Tetromino_total:
  assumes "wf_geometry geo" "1 \<le> i" "i \<le> unique_types geo"
  shows "\<exists>t. new_Tetromino geo i 0 x y = Inr t"
proof -
  have "0 \<le> (i - 1) * 4" "(i - 1) * 4 < int (length (tmino_list geo))"
    "0 \<le> i - 1" "i - 1 < int (length (unique_tmino_list geo))"
    using assms by (auto simp: wf_geometry_def)
  then show ?thesis
    by (simp add: new_Tetromino_def get_tetromino_type_def py_get_in err_bind_def)
qed

lemma generate_loop_total:
  assumes "wf_geometry geo"
  shows "\<forall>i \<in> set id_list. 1 \<le> i \<and> i \<le> unique_types geo
    \<Longrightarrow> \<exists>seq' g'. generate_loop geo id_list seq g = Inr (seq', g')
          \<and> length seq' = length seq + length id_list"
proof (induction "length id_list" arbitrary: id_list seq g)
  case 0
  then show ?case by (subst generate_loop.simps) simp
next
  case (Suc n)
  then have ne: "length id_list \<noteq> 0" by auto
  let ?r = "int (ints g 0) mod int (length id_list)"
  from randint_later[of 0 "int (length id_list) - 1" g] ne obtain g1 where
    r: "randint 0 (int (length id_list) - 1) g = Inr (?r, g1)" by auto
  have rr: "0 \<le> ?r" "?r < int (length id_list)" using ne by simp_all
  then have get: "py_get id_list ?r = Inr (id_list ! nat ?r)" by (simp add: py_get_in)
  have "id_list ! nat ?r \<in> set id_list" using rr by (intro nth_mem) linarith
  then have i: "1 \<le> id_list ! nat ?r" "id_list ! nat ?r \<le> unique_types geo"
    using Suc.prems by auto
  from new_Tetromino_total[OF assms i, of 0 0] obtain t where
    t: "new_Tetromino geo (id_list ! nat ?r) 0 0 0 = Inr t" by blast
  let ?ids = "pop_at id_list (nat ?r)"
  have len: "length ?ids = n" using Suc.hyps(2) rr by (simp add: pop_at_def)
  have sub: "\<forall>i \<in> set ?ids. 1 \<le> i \<and> i \<le> unique_types geo"
    using Suc.prems by (auto simp: pop_at_def dest: in_set_takeD in_set_dropD)
  from Suc.hyps(1)[OF len[symmetric] sub,
      of "seq @ [t\<lparr>x_pos := (max_x t - min_x t) div 2, y_pos := min_y t\<rparr>]" g1]
  obtain seq' g' where
    gl: "generate_loop geo ?ids (seq @ [t\<lparr>x_pos := (max_x t - min_x t) div 2, y_pos := min_y t\<rparr>]) g1
       = Inr (seq', g')"
    and ll: "length seq' = length (seq @ [t\<lparr>x_pos := (max_x t - min_x t) div 2, y_pos := min_y t\<rparr>])
       + length ?ids" by blast
  have "length seq' = length seq + length id_list" using ll len Suc.hyps(2) by simp
  with gl show ?case
    by (subst generate_loop.simps) (simp add: ne r get t)
qed













subsection \<open>C7: malformed shape definitions\<close>

lemma oe_bind_simps [simp]:
  "oe_bind None f = None" "oe_bind (Some (Inl e)) f = Some (Inl e)" "oe_bind (Some (Inr v)) f = f v"
  by (simp_all add: oe_bind_def)






















text \<open>
  \<open>py_int\<close> on some literals, as \<open>int\<close> reads them; the character 28 is stripped by
  \<open>strip()\<close> but refused by \<open>int\<close>, the character 160 is skipped by both.
\<close>

lemma py_int_examples:
  "py_int '' -5 '' = Inr (- 5)"
  "py_int ''5_0'' = Inr 50"
  "py_int ''007'' = Inr 7"
  "py_int ''5__0'' = Inl ValueError"
  "py_int ''- 5'' = Inl ValueError"
  "py_int [CHR 0x1C, CHR ''5''] = Inl ValueError"
  "py_int [CHR 0xA0, CHR ''5''] = Inr 5"
  "strip [CHR 0x1C, CHR ''5''] = ''5''"
  by (simp_all add: py_int_def strip_def is_space_def int_space_def is_digit_def int_max_str_digits_def)

lemma py_int_long_literal: "py_int (replicate 4301 CHR ''1'') = Inl ValueError"
proof -
  have d: "dropWhile int_space (replicate n CHR ''1'') = replicate n CHR ''1''" for n
    by (cases n) (simp_all add: int_space_def)
  have sp: "split_on CHR ''_'' (replicate n CHR ''1'') = [replicate n CHR ''1'']" for n
    by (induction n) simp_all
  show ?thesis
    unfolding py_int_def Let_def d rev_replicate
    by (simp add: sp int_max_str_digits_def)
qed






subsection \<open>The move enumeration returns\<close>

text \<open>
  The guarantee on the moves is about the list that is returned; on a well-formed grid of
  positive width and a well-formed geometry table the enumeration does return one, so the
  guarantee is not empty.
\<close>

lemma readable_mask_read:
  "readable_mask bd n \<Longrightarrow> 0 \<le> x \<Longrightarrow> x < int n \<Longrightarrow> 0 \<le> y \<Longrightarrow> y < int n
   \<Longrightarrow> py_get2 bd x y = Inr (bd ! nat x ! nat y)"
proof -
  assume a: "readable_mask bd n" "0 \<le> x" "x < int n" "0 \<le> y" "y < int n"
  then have "nat x < n" by linarith
  with a(1) have l: "n \<le> length bd" "n \<le> length (bd ! nat x)"
    by (auto simp: readable_mask_def)
  have "py_get bd x = Inr (bd ! nat x)" using a(2,3) l(1) by (intro py_get_in) auto
  moreover have "py_get (bd ! nat x) y = Inr (bd ! nat x ! nat y)"
    using a(4,5) l(2) by (intro py_get_in) auto
  ultimately show ?thesis by (simp add: py_get2_def)
qed

lemma is_colliding_loop_total:
  assumes "wfg W H gr" "readable_mask (block_data t) n"
  shows "\<forall>c \<in> set cs. 0 \<le> fst c \<and> fst c < int n \<and> 0 \<le> snd c \<and> snd c < int n
    \<Longrightarrow> \<exists>b. is_colliding_loop gr t cs = Inr b"
proof (induction cs)
  case Nil
  then show ?case by auto
next
  case (Cons c cs)
  obtain x y where c: "c = (x, y)" by (cases c)
  from Cons.prems c have r: "py_get2 (block_data t) x y = Inr (block_data t ! nat x ! nat y)"
    by (intro readable_mask_read[OF assms(2)]) auto
  from Cons obtain b' where rest: "is_colliding_loop gr t cs = Inr b'" by auto
  let ?gx = "x + x_pos t" and ?gy = "y + y_pos t"
  show ?case
  proof (cases "block_data t ! nat x ! nat y \<and> \<not> (?gx < 0 \<or> ?gy < 0 \<or> ?gx \<ge> int (length gr))")
    case False
    then show ?thesis using c r rest by (auto simp: Let_def)
  next
    case True
    then have gx: "0 \<le> ?gx" "?gx < int W" "0 \<le> ?gy" using assms(1) by (auto simp: wfg_def)
    then have "0 < length gr" using assms(1) by (auto simp: wfg_def)
    then have g0: "py_get gr 0 = Inr (gr ! 0)" by (simp add: py_get_def)
    have l0: "length (gr ! 0) = H" using assms(1) gx by (auto simp: wfg_def)
    show ?thesis
    proof (cases "?gy \<ge> int H")
      case True
      then show ?thesis using c r \<open>block_data t ! nat x ! nat y \<and> _\<close> g0 l0
        by (auto simp: Let_def)
    next
      case False
      then have "py_get2 gr ?gx ?gy = Inr (gr ! nat ?gx ! nat ?gy)"
        using gx assms(1) wfg_nth[OF assms(1), of "nat ?gx"] wfg_length[OF assms(1)]
        by (simp add: py_get2_def py_get_in)
      then show ?thesis using c r True g0 l0 False rest
        by (auto simp: Let_def)
    qed
  qed
qed

lemma is_colliding_total:
  assumes "wfg W H gr" "readable_mask (block_data t) (tmino_size t)"
  shows "\<exists>b. is_colliding gr t = Inr b"
  unfolding is_colliding_def
  by (rule is_colliding_loop_total[OF assms]) (auto simp: set_cells)

lemma new_Tetromino_ok:
  assumes "table_ok geo" "1 \<le> i" "i \<le> unique_types geo"
  shows "\<exists>t. new_Tetromino geo i r x y = Inr t \<and> readable_mask (block_data t) (tmino_size t)"
proof -
  let ?k = "(i - 1) * 4 + r mod 4"
  have m: "0 \<le> r mod 4" "r mod 4 < 4" by simp_all
  have k: "0 \<le> ?k" "?k < int (length (tmino_list geo))"
    using assms m by (auto simp: table_ok_def)
  then have g: "get_tetromino_type geo i r = Inr (tmino_list geo ! nat ?k)"
    by (simp add: get_tetromino_type_def py_get_in)
  have "tmino_list geo ! nat ?k \<in> set (tmino_list geo)" using k by (intro nth_mem) linarith
  then have rd: "readable_mask (block_data (tmino_list geo ! nat ?k)) (tmino_size (tmino_list geo ! nat ?k))"
    using assms(1) by (simp add: table_ok_def)
  have "0 \<le> i - 1" "i - 1 < int (length (unique_tmino_list geo))"
    using assms by (auto simp: table_ok_def)
  then have u: "py_get (unique_tmino_list geo) (i - 1) = Inr (unique_tmino_list geo ! nat (i - 1))"
    by (simp add: py_get_in)
  show ?thesis using g u rd by (simp add: new_Tetromino_def err_bind_def)
qed

lemma greatest_height_loop_total:
  "length heights = length gr \<Longrightarrow> \<exists>gh. greatest_height_loop gr heights js g0 = Inr gh"
proof (induction js arbitrary: g0)
  case Nil
  then show ?case by simp
next
  case (Cons j js)
  show ?case
  proof (cases "j \<ge> 0 \<and> j < int (length gr)")
    case True
    then have "py_get heights j = Inr (heights ! nat j)" using Cons.prems by (simp add: py_get_in)
    then show ?thesis using True Cons by (simp add: err_bind_def)
  next
    case False
    then show ?thesis using Cons by auto
  qed
qed

lemma drop_loop_total:
  assumes "wfg W H gr"
  shows "readable_mask (block_data t) (tmino_size t)
    \<Longrightarrow> \<exists>t'. drop_loop gr t js = Inr t' \<and> block_data t' = block_data t \<and> tmino_size t' = tmino_size t"
proof (induction js arbitrary: t)
  case Nil
  then show ?case by simp
next
  case (Cons j js)
  from is_colliding_total[OF assms, of "t\<lparr>y_pos := j\<rparr>"] Cons.prems
  obtain b where b: "is_colliding gr (t\<lparr>y_pos := j\<rparr>) = Inr b" by auto
  show ?case
  proof (cases b)
    case True
    with b show ?thesis by (simp add: err_bind_def)
  next
    case False
    from Cons.IH[of "t\<lparr>y_pos := j\<rparr>"] Cons.prems
    obtain t' where "drop_loop gr (t\<lparr>y_pos := j\<rparr>) js = Inr t'" "block_data t' = block_data t"
      "tmino_size t' = tmino_size t" by auto
    with b False show ?thesis by (simp add: err_bind_def)
  qed
qed

lemma position_loop_total:
  assumes "wfg W H gr" "0 < W" "length heights = W"
  shows "readable_mask (block_data (fst s)) (tmino_size (fst s))
    \<Longrightarrow> \<exists>s'. position_loop gr heights r is s = Inr s'"
proof (induction "is" arbitrary: s)
  case Nil
  then show ?case by simp
next
  case (Cons i "is")
  obtain t moves where s: "s = (t, moves)" by (cases s)
  let ?t1 = "t\<lparr>x_pos := i\<rparr>"
  have lg: "length gr = W" using assms(1) by (simp add: wfg_def)
  from greatest_height_loop_total[of heights gr "py_range2 i (i + int (tmino_size ?t1))" 0] assms(3) lg
  obtain gh where gh: "greatest_height_loop gr heights (py_range2 i (i + int (tmino_size ?t1))) 0 = Inr gh"
    by auto
  have g0: "py_get gr 0 = Inr (gr ! 0)" using lg assms(2) by (simp add: py_get_def)
  have rd1: "readable_mask (block_data ?t1) (tmino_size ?t1)" using Cons.prems s by simp
  from drop_loop_total[OF assms(1) rd1]
  obtain t2 where t2: "drop_loop gr ?t1
      (py_range2 (max (int (length (gr ! 0)) - gh - int (tmino_size ?t1)) (min_y ?t1)) (max_y ?t1 + 1)) = Inr t2"
    "block_data t2 = block_data ?t1" "tmino_size t2 = tmino_size ?t1" by blast
  have rd2: "readable_mask (block_data t2) (tmino_size t2)" using rd1 t2 by simp
  from is_colliding_total[OF assms(1) rd2] obtain c where c: "is_colliding gr t2 = Inr c" by auto
  from Cons.IH[of "(t2, if \<not> c then moves @ [(r, x_pos t2, y_pos t2)] else moves)"] rd2
  obtain s' where "position_loop gr heights r is
      (t2, if \<not> c then moves @ [(r, x_pos t2, y_pos t2)] else moves) = Inr s'" by auto
  then show ?case using s gh g0 t2(1) c by (simp add: err_bind_def Let_def)
qed

lemma rotation_loop_total:
  assumes "wfg W H gr" "0 < W" "length heights = W" "table_ok geo" "1 \<le> i" "i \<le> unique_types geo"
  shows "\<exists>moves'. rotation_loop geo gr heights i rs moves = Inr moves'"
proof (induction rs arbitrary: moves)
  case Nil
  then show ?case by simp
next
  case (Cons r rs)
  from new_Tetromino_ok[OF assms(4-6), of r 0 0] obtain cur where
    cur: "new_Tetromino geo i r 0 0 = Inr cur" "readable_mask (block_data cur) (tmino_size cur)"
    by blast
  from position_loop_total[OF assms(1-3), of "(cur, moves)" r "py_range2 (min_x cur) (max_x cur + 1)"] cur(2)
  obtain t moves1 where p: "position_loop gr heights r (py_range2 (min_x cur) (max_x cur + 1)) (cur, moves)
      = Inr (t, moves1)" by fastforce
  from Cons[of moves1] obtain moves' where "rotation_loop geo gr heights i rs moves1 = Inr moves'"
    by blast
  then show ?case using cur(1) p by (simp add: err_bind_def)
qed

lemma compute_moves_available_total:
  assumes "wf_grid ai grid" "0 < grid_width ai" "table_ok geo"
    and "1 \<le> tmino_id tetromino" "tmino_id tetromino \<le> unique_types geo"
  shows "\<exists>moves. compute_moves_available geo ai grid tetromino = Inr moves"
proof -
  from compute_heightmap_wf[OF assms(1)] obtain hs where
    hs: "compute_heightmap ai grid = Inr hs" "length hs = grid_width ai" by blast
  have wf: "wfg (grid_width ai) (grid_height ai) grid" using assms(1) by (simp add: wf_grid_wfg)
  from rotation_loop_total[OF wf assms(2) hs(2) assms(3-5), of "unique_rotations_list tetromino" "[]"]
  show ?thesis using hs(1) by (simp add: compute_moves_available_def err_bind_def)
qed

lemma table_ok_geo_O: "table_ok geo_O"
  by (simp add: table_ok_def geo_O_def type_O_def readable_mask_def less_Suc_eq numeral_2_eq_2)

subsection \<open>The lock returns\<close>

text \<open>
  \<open>place_tetromino\<close> raises nothing on a well-formed grid when the masks of the current
  and of the next piece can be read, the piece is not more than \<open>grid_height\<close> rows above
  the board (below that, \<open>grid[x][current_y]\<close> is out of range), and a next piece can be
  drawn.
\<close>

lemma write_loop_total:
  assumes "readable_mask (block_data t) n"
  shows "wfg W H gr
    \<Longrightarrow> \<forall>c \<in> set cs. 0 \<le> fst c \<and> fst c < int n \<and> 0 \<le> snd c \<and> snd c < int n
    \<Longrightarrow> \<exists>gr'. write_loop W H t cs gr = Inr gr' \<and> wfg W H gr'"
proof (induction cs arbitrary: gr)
  case Nil
  then show ?case by simp
next
  case (Cons c cs)
  obtain cx cy where c: "c = (cx, cy)" by (cases c)
  from Cons.prems(2) c have b: "py_get2 (block_data t) cx cy = Inr (block_data t ! nat cx ! nat cy)"
    by (intro readable_mask_read[OF assms]) auto
  let ?b = "block_data t ! nat cx ! nat cy"
  let ?gx = "cx + x_pos t" and ?gy = "cy + y_pos t"
  have rest: "\<forall>c \<in> set cs. 0 \<le> fst c \<and> fst c < int n \<and> 0 \<le> snd c \<and> snd c < int n"
    using Cons.prems(2) by simp
  show ?case
  proof (cases "?b \<and> \<not> (?gx < 0 \<or> ?gx \<ge> int W \<or> ?gy < 0 \<or> ?gy \<ge> int H)")
    case False
    from Cons.IH[OF Cons.prems(1) rest] obtain gr' where
      "write_loop W H t cs gr = Inr gr'" "wfg W H gr'" by blast
    with False c b show ?thesis by (auto simp: err_bind_def Let_def)
  next
    case True
    then have inb: "0 \<le> ?gx" "?gx < int W" "0 \<le> ?gy" "?gy < int H" by auto
    define x where "x = nat ?gx"
    define y where "y = nat ?gy"
    have xy: "x < W" "y < H" "?gx = int x" "?gy = int y" using inb by (auto simp: x_def y_def)
    let ?g1 = "gr[x := (gr ! x)[y := tmino_id t]]"
    have s: "py_set2 gr (int x) (int y) (tmino_id t) = Inr ?g1"
      using xy wfg_nth[OF Cons.prems(1) xy(1)] wfg_length[OF Cons.prems(1)]
      by (intro py_set2_in) auto
    have wf1: "wfg W H ?g1"
      using Cons.prems(1) xy(1) unfolding wfg_def
      by (auto simp: set_conv_nth nth_list_update)
    from Cons.IH[OF wf1 rest] obtain gr' where
      "write_loop W H t cs ?g1 = Inr gr'" "wfg W H gr'" by blast
    with True c b s xy show ?thesis by (auto simp: err_bind_def Let_def)
  qed
qed

lemma line_cleared_loop_total:
  assumes "wfg W H gr" "- int H \<le> cy" "cy < int H"
  shows "\<exists>b. line_cleared_loop gr cy (py_range W) = Inr b"
proof (cases "0 \<le> cy")
  case True
  from line_cleared_loop_row[OF assms(1) True assms(3)] show ?thesis by blast
next
  case False
  then have "cy < 0" by simp
  from line_cleared_loop_wrap[OF assms(1) this assms(2), of "py_range W"] show ?thesis
    by (auto simp: set_py_range)
qed

lemma clear_loop_total:
  "wfg W H gr \<Longrightarrow> - int H \<le> cy - int n + 1
   \<Longrightarrow> \<exists>g2 l2 c2. clear_loop W H n (gr, lines, cy) = Inr (g2, l2, c2) \<and> wfg W H g2"
proof (induction n arbitrary: gr lines cy)
  case 0
  then show ?case by simp
next
  case (Suc n)
  show ?case
  proof (cases "cy \<ge> int H")
    case True
    from Suc.IH[OF Suc.prems(1), of "cy - 1" lines] Suc.prems(2) True show ?thesis by auto
  next
    case below: False
    have lo: "- int H \<le> cy" using Suc.prems(2) by simp
    from line_cleared_loop_total[OF Suc.prems(1) lo] below
    obtain b where b: "line_cleared_loop gr cy (py_range W) = Inr b" by auto
    show ?thesis
    proof (cases b)
      case False
      from Suc.IH[OF Suc.prems(1), of "cy - 1" lines] Suc.prems(2)
      obtain g2 l2 c2 where "clear_loop W H n (gr, lines, cy - 1) = Inr (g2, l2, c2)" "wfg W H g2"
        by auto
      with below b False show ?thesis by (simp add: err_bind_def)
    next
      case True
      have "\<exists>g2. err_bind (shift_loop W (py_range_down cy) gr)
           (assign_row (py_range W) 0 (\<lambda>gr x. Inr 0)) = Inr g2 \<and> wfg W H g2"
      proof (cases "0 \<le> cy")
        case True
        define j where "j = nat cy"
        have j: "j < H" "cy = int j" using True below by (auto simp: j_def)
        have "wfg W H (map (cleared_col j) gr)"
          using Suc.prems(1) by (rule wfg_map) (simp add: length_cleared_col j(1))
        with shift_and_zero[OF Suc.prems(1) j(1)] j(2) show ?thesis by auto
      next
        case False
        then have e: "py_range_down cy = []" by (simp add: py_range_down_def)
        have H: "0 < H" using False lo by linarith
        have "assign_row (py_range W) (int 0) (\<lambda>gr x. Inr 0) gr
            = Inr (map (\<lambda>col. col[0 := 0]) gr)"
          using H by (intro assign_row_all[OF Suc.prems(1)]) auto
        moreover have "wfg W H (map (\<lambda>col. col[0 := 0]) gr)"
          using Suc.prems(1) by (rule wfg_map) simp
        ultimately show ?thesis using e by (simp add: err_bind_def)
      qed
      then obtain g1 g2 where g: "shift_loop W (py_range_down cy) gr = Inr g1"
        "assign_row (py_range W) 0 (\<lambda>gr x. Inr 0) g1 = Inr g2" "wfg W H g2"
        by (cases "shift_loop W (py_range_down cy) gr") (auto simp: err_bind_def)
      from Suc.IH[OF g(3), of cy "lines + 1"] Suc.prems(2)
      obtain g3 l3 c3 where "clear_loop W H n (g2, lines + 1, cy) = Inr (g3, l3, c3)" "wfg W H g3"
        by auto
      with below b True g show ?thesis by (simp add: err_bind_def)
    qed
  qed
qed

lemma lock_piece_total:
  assumes "wf_grid self (game_grid self)" "readable_mask (block_data t) (tmino_size t)"
    and "- int (grid_height self) \<le> y_pos t"
  shows "\<exists>gr lines. lock_piece self t = Inr (gr, lines) \<and> wf_grid self gr"
proof -
  let ?W = "grid_width self" and ?H = "grid_height self"
  have wf0: "wfg ?W ?H (game_grid self)" using assms(1) by (simp add: wf_grid_wfg)
  have cs: "\<forall>c \<in> set (cells (tmino_size t)). 0 \<le> fst c \<and> fst c < int (tmino_size t)
      \<and> 0 \<le> snd c \<and> snd c < int (tmino_size t)"
    by (auto simp: set_cells)
  from write_loop_total[OF assms(2) wf0 cs] obtain written where
    w: "write_loop ?W ?H t (cells (tmino_size t)) (game_grid self) = Inr written" "wfg ?W ?H written"
    by blast
  have "- int ?H \<le> y_pos t + int (tmino_size t) - 1 - int (tmino_size t) + 1"
    using assms(3) by simp
  from clear_loop_total[OF w(2) this, of "lines_cleared self"] obtain gr2 lines2 cy2 where
    c: "clear_loop ?W ?H (tmino_size t) (written, lines_cleared self, y_pos t + int (tmino_size t) - 1)
        = Inr (gr2, lines2, cy2)" "wfg ?W ?H gr2"
    by blast
  with w(1) show ?thesis by (simp add: lock_piece_def err_bind_def wf_grid_wfg)
qed

lemma generate_tetromino_seq_total:
  assumes "wf_geometry geo"
  shows "\<exists>seq g'. generate_tetromino_seq geo g = Inr (seq, g') \<and> seq \<noteq> []"
proof -
  have ids: "\<forall>i \<in> set (py_range2 1 (unique_types geo + 1)). 1 \<le> i \<and> i \<le> unique_types geo"
    by (auto simp: set_py_range2)
  have n: "length (py_range2 1 (unique_types geo + 1)) = nat (unique_types geo)"
    by (simp add: py_range2_def)
  from generate_loop_total[OF assms ids, of "[]" g] obtain seq g' where
    s: "generate_tetromino_seq geo g = Inr (seq, g')" "length seq = nat (unique_types geo)"
    by (auto simp: generate_tetromino_seq_def n)
  have "2 \<le> length seq" using s(2) assms by (auto simp: wf_geometry_def)
  then have "seq \<noteq> []" by auto
  with s(1) show ?thesis by blast
qed

lemma place_tetromino_total:
  assumes "wf_grid self (game_grid self)" and "current_tmino self = Some t"
    and "readable_mask (block_data t) (tmino_size t)"
    and "readable_mask (block_data (next_tmino self)) (tmino_size (next_tmino self))"
    and "- int (grid_height self) \<le> y_pos t"
    and "tmino_seq self \<noteq> [] \<or> wf_geometry geo"
  shows "\<exists>self' g'. place_tetromino geo self g = Inr (self', g')"
proof -
  from lock_piece_total[OF assms(1,3,5)] obtain gr lines where
    l: "lock_piece self t = Inr (gr, lines)" "wf_grid self gr" by blast
  have "\<exists>seq g'. (if length (tmino_seq self) = 0 then generate_tetromino_seq geo
                   else rreturn (tmino_seq self)) g = Inr (seq, g') \<and> seq \<noteq> []"
  proof (cases "tmino_seq self = []")
    case True
    with assms(6) generate_tetromino_seq_total[of geo g] show ?thesis by simp
  next
    case False
    then show ?thesis by (simp add: rreturn_def)
  qed
  then obtain seq g' where
    s: "(if length (tmino_seq self) = 0 then generate_tetromino_seq geo
         else rreturn (tmino_seq self)) g = Inr (seq, g')" "seq \<noteq> []" by blast
  have "Suc 0 \<le> length seq" using s(2) by (cases seq) auto
  then have p: "\<exists>nxt. py_get seq (- 1) = Inr nxt"
    by (simp add: py_get_def)
  then obtain nxt where p: "py_get seq (- 1) = Inr nxt" by blast
  have "wfg (grid_width self) (grid_height self) gr" using l(2) by (simp add: wf_grid_wfg)
  from is_colliding_total[OF this assms(4)] obtain c where
    c: "is_colliding gr (next_tmino self) = Inr c" by blast
  show ?thesis
    unfolding place_tetromino_def using assms(2) l(1) s(1) p c
    by (simp add: rbind_def)
qed

lemma place_tetromino_total_game_0:
  "\<exists>self' g'. place_tetromino geo_O game_0 g = Inr (self', g')"
proof (rule place_tetromino_total)
  show "wf_grid game_0 (game_grid game_0)" by (simp add: wf_grid_def game_0_def)
  show "current_tmino game_0 = Some (piece_O\<lparr>x_pos := 2, y_pos := 2\<rparr>)" by (simp add: game_0_def)
  show "readable_mask (block_data (piece_O\<lparr>x_pos := 2, y_pos := 2\<rparr>))
     (tmino_size (piece_O\<lparr>x_pos := 2, y_pos := 2\<rparr>))"
    by (simp add: piece_O_def readable_mask_def less_Suc_eq numeral_2_eq_2)
  show "readable_mask (block_data (next_tmino game_0)) (tmino_size (next_tmino game_0))"
    by (simp add: game_0_def spawn_O_def piece_O_def readable_mask_def less_Suc_eq numeral_2_eq_2)
  show "- int (grid_height game_0) \<le> y_pos (piece_O\<lparr>x_pos := 2, y_pos := 2\<rparr>)"
    by (simp add: game_0_def)
  show "tmino_seq game_0 \<noteq> [] \<or> wf_geometry geo_O" by (simp add: game_0_def)
qed

end
